theory Spec2Isabelle
  imports Complex_Main "HOL-Library.Multiset"
begin

section \<open>Errors and the datastore client\<close>

text \<open>
  Both scripts are sequences of calls into the Datastore client. The client is not part
  of the repository, so it is a parameter of the model: a record of functions that answer
  each call with either a raised error or a value.

  An error is a Python exception of class \<open>Exception\<close>, carrying the text that
  \<open>str(e)\<close> gives. Every handler in the source is \<open>except Exception\<close>.
\<close>

datatype exn = Exception string

fun str_exn :: "exn \<Rightarrow> string" where
  "str_exn (Exception msg) = msg"

text \<open>
  Modelled from the spec: the Post entity type is declared by the datastore, not by the
  repository. The spec's data model gives a Post an author (a user name), a created
  timestamp and an otherwise opaque payload.
\<close>

record post =
  author :: string
  created :: int
  payload :: string

text \<open>
  A User entity as \<open>client.get\<close> returns it. Only the attribute \<open>follows\<close> is read;
  \<open>None\<close> stands for an entity that has no such attribute.
\<close>

datatype user_entity = UserEntity (follows_attr: "string list option")

text \<open>
  The calls of \<open>get_timeline\<close> into the client:
  \<^item> \<open>has_gql\<close> is \<open>hasattr(client, 'gql')\<close>;
  \<^item> \<open>get_user\<close> is \<open>client.get(client.key('User', user))\<close>;
  \<^item> \<open>gql_fetch\<close> is the query-language statement bound to the authors and fetched
    with the limit (lines 43 to 45);
  \<^item> \<open>in_fetch\<close> is the structured query with the \<open>IN\<close> filter (lines 52 to 55);
  \<^item> \<open>eq_fetch\<close> is the structured query of one author (lines 59 to 62).
\<close>

record client =
  has_gql :: bool
  get_user :: "string \<Rightarrow> exn + user_entity option"
  gql_fetch :: "string list \<Rightarrow> int \<Rightarrow> exn + post list"
  in_fetch :: "string list \<Rightarrow> int \<Rightarrow> exn + post list"
  eq_fetch :: "string \<Rightarrow> int \<Rightarrow> exn + post list"

text \<open>The log of the calls made, in the order they are made.\<close>

datatype call =
    GetUser string
  | GqlFetch "string list" int
  | InFetch "string list" int
  | EqFetch string int

fun strategy_of :: "call \<Rightarrow> nat" where
  "strategy_of (GetUser _) = 0"
| "strategy_of (GqlFetch _ _) = 1"
| "strategy_of (InFetch _ _) = 2"
| "strategy_of (EqFetch _ _) = 3"

section \<open>The timeline resolver\<close>

text \<open>
  \<open>list({*follows, user})\<close>: a set built from the followed names and the user, turned
  back into a list. Python fixes no iteration order for a set, so the order is a parameter:
  the rank function \<open>h\<close>, by which the distinct members are arranged. Every arrangement
  of the members is the result for some \<open>h\<close>.
\<close>

definition py_list_of_set :: "(string \<Rightarrow> nat) \<Rightarrow> string list \<Rightarrow> string list" where
  "py_list_of_set h xs = sort_key h (remdups xs)"

definition follow_set :: "(string \<Rightarrow> nat) \<Rightarrow> user_entity option \<Rightarrow> string \<Rightarrow> string list" where
  "follow_set h user_entity user =
     (let follows = (case user_entity of
                       None \<Rightarrow> []
                     | Some e \<Rightarrow> (case follows_attr e of None \<Rightarrow> [] | Some fs \<Rightarrow> fs))
      in py_list_of_set h (follows @ [user]))"

text \<open>
  \<open>xs[:limit]\<close> for a Python integer: a negative bound counts from the end of the list.
\<close>

definition py_slice_to :: "'a list \<Rightarrow> int \<Rightarrow> 'a list" where
  "py_slice_to xs limit =
     (if 0 \<le> limit then take (nat limit) xs
      else take (nat (int (length xs) + limit)) xs)"

text \<open>
  \<open>sorted(posts, key=lambda p: p.get('created'), reverse=True)\<close>: Python's sort is
  stable, also when reversed, so posts of equal timestamp keep their order.
\<close>

definition sorted_desc :: "post list \<Rightarrow> post list" where
  "sorted_desc posts = sort_key (\<lambda>p. - created p) posts"

text \<open>
  The loop of lines 58 to 62: one query per author, the results appended to \<open>posts\<close>.
  An error of a query leaves the loop and the function.
\<close>

fun fan_out :: "client \<Rightarrow> int \<Rightarrow> string list \<Rightarrow> post list \<Rightarrow> call list \<times> (exn + post list)" where
  "fan_out c limit [] posts = ([], Inr posts)"
| "fan_out c limit (a # as) posts =
     (case eq_fetch c a limit of
        Inl e \<Rightarrow> ([EqFetch a limit], Inl e)
      | Inr ps \<Rightarrow>
          (case fan_out c limit as (posts @ ps) of
             (tr, r) \<Rightarrow> (EqFetch a limit # tr, r)))"

text \<open>Lines 41 to 48: the first strategy, with the flag \<open>used_gql\<close>.\<close>

definition try_gql :: "client \<Rightarrow> string list \<Rightarrow> int \<Rightarrow> call list \<times> post list \<times> bool" where
  "try_gql c follows limit =
     (if has_gql c then
        (case gql_fetch c follows limit of
           Inr ps \<Rightarrow> ([GqlFetch follows limit], ps, True)
         | Inl e \<Rightarrow> ([GqlFetch follows limit], [], False))
      else ([], [], False))"

text \<open>Lines 50 to 63: the second strategy and, in its handler, the third.\<close>

definition try_query :: "client \<Rightarrow> string list \<Rightarrow> int \<Rightarrow> call list \<times> (exn + post list)" where
  "try_query c follows limit =
     (case in_fetch c follows limit of
        Inr ps \<Rightarrow> ([InFetch follows limit], Inr ps)
      | Inl e \<Rightarrow>
          (case fan_out c limit follows [] of
             (tr, Inl e') \<Rightarrow> (InFetch follows limit # tr, Inl e')
           | (tr, Inr posts) \<Rightarrow>
               (InFetch follows limit # tr, Inr (py_slice_to (sorted_desc posts) limit))))"

definition get_timeline :: "client \<Rightarrow> (string \<Rightarrow> nat) \<Rightarrow> string \<Rightarrow> int \<Rightarrow> call list \<times> (exn + post list)" where
  "get_timeline c h user limit =
     (if user = [] then ([], Inr [])
      else
        (case get_user c user of
           Inl e \<Rightarrow> ([GetUser user], Inl e)
         | Inr user_entity \<Rightarrow>
             (let follows = follow_set h user_entity user in
              case try_gql c follows limit of
                (tr1, timeline, used_gql) \<Rightarrow>
                  if used_gql then (GetUser user # tr1, Inr timeline)
                  else
                    (case try_query c follows limit of
                       (tr2, r) \<Rightarrow> (GetUser user # tr1 @ tr2, r)))))"

text \<open>What the strategies of a call to \<open>get_timeline\<close> meet, read off the client.\<close>

definition strategy1_ok :: "client \<Rightarrow> string list \<Rightarrow> int \<Rightarrow> bool" where
  "strategy1_ok c fs limit = (has_gql c \<and> \<not> isl (gql_fetch c fs limit))"

definition strategy3_tried :: "client \<Rightarrow> string list \<Rightarrow> int \<Rightarrow> bool" where
  "strategy3_tried c fs limit = (\<not> strategy1_ok c fs limit \<and> isl (in_fetch c fs limit))"

subsection \<open>Concrete clients\<close>

definition post_a :: post where
  "post_a = \<lparr>author = ''alice'', created = 10, payload = ''a''\<rparr>"

definition post_b :: post where
  "post_b = \<lparr>author = ''bob'', created = 30, payload = ''b''\<rparr>"

definition post_c :: post where
  "post_c = \<lparr>author = ''bob'', created = 20, payload = ''c''\<rparr>"

text \<open>
  A backend that offers the query language but fails it, has no \<open>IN\<close> filter, and
  answers the queries of one author. \<open>alice\<close> follows \<open>bob\<close>.
\<close>

definition fallback_client :: client where
  "fallback_client =
     \<lparr>has_gql = True,
      get_user = (\<lambda>u. if u = ''alice'' then Inr (Some (UserEntity (Some [''bob''])))
                       else Inr None),
      gql_fetch = (\<lambda>fs l. Inl (Exception ''gql failed'')),
      in_fetch = (\<lambda>fs l. Inl (Exception ''IN unsupported'')),
      eq_fetch = (\<lambda>a l. if a = ''alice'' then Inr [post_a]
                         else if a = ''bob'' then Inr [post_b, post_c]
                         else Inr [])\<rparr>"

text \<open>The same backend with every query failing.\<close>

definition broken_client :: client where
  "broken_client = fallback_client\<lparr>eq_fetch := (\<lambda>a l. Inl (Exception ''backend down''))\<rparr>"

text \<open>The rank of the names in the set of \<open>alice\<close>: \<open>bob\<close> before \<open>alice\<close>.\<close>

definition rank :: "string \<Rightarrow> nat" where
  "rank u = (if u = ''bob'' then 0 else 1)"

section \<open>The request runner\<close>

text \<open>
  The result dictionary of one request. \<open>time.time()\<close> returns a float; a float is a
  rational number, and a float operation is the exact operation followed by rounding to
  the nearest float. The rounding is the parameter \<open>rnd\<close> of the functions below.
\<close>

record request_result =
  user_of :: string
  duration :: rat
  success :: bool
  posts_count :: nat
  error :: "string option"

text \<open>
  \<open>execute_timeline_request\<close>, with the two readings of the clock as arguments. The
  result is a sum so that an error leaving the function would be a value \<open>Inl\<close>.
\<close>

definition execute_timeline_request ::
  "client \<Rightarrow> (string \<Rightarrow> nat) \<Rightarrow> (rat \<Rightarrow> rat) \<Rightarrow> rat \<Rightarrow> rat \<Rightarrow> string \<Rightarrow> int \<Rightarrow> exn + request_result" where
  "execute_timeline_request c h rnd t_start t_end user limit =
     (case snd (get_timeline c h user limit) of
        Inr result \<Rightarrow>
          Inr \<lparr>user_of = user, duration = rnd (t_end - t_start), success = True,
               posts_count = length result, error = None\<rparr>
      | Inl e \<Rightarrow>
          Inr \<lparr>user_of = user, duration = rnd (t_end - t_start), success = False,
               posts_count = 0, error = Some (str_exn e)\<rparr>)"

section \<open>Integers as text\<close>

text \<open>\<open>str(n)\<close> of a Python integer: decimal digits, with a minus sign when negative.\<close>

definition digit_char :: "nat \<Rightarrow> char" where
  "digit_char d = ''0123456789'' ! d"

function digits_of :: "nat \<Rightarrow> string" where
  "digits_of n = (if n < 10 then [digit_char n] else digits_of (n div 10) @ [digit_char (n mod 10)])"
  by pat_completeness auto
termination
  by (relation "measure id") auto

definition py_str :: "int \<Rightarrow> string" where
  "py_str i = (if i < 0 then CHR ''-'' # digits_of (nat (- i)) else digits_of (nat i))"

text \<open>
  The integer that a text of ASCII characters denotes for \<open>int\<close>: the whitespace of the
  C locale around it is dropped, a sign may come first, and the digits may be separated
  by single underscores. \<open>None\<close> is the \<open>ValueError\<close>. This is the reading of
  \<open>PyLong_FromString\<close> in base 10; the interpreter's limit on the number of digits and
  the texts with other characters are added by \<open>int_conv\<close> below.
\<close>

definition digit_val :: "char \<Rightarrow> nat option" where
  "digit_val ch =
     (if ch = CHR ''0'' then Some 0 else if ch = CHR ''1'' then Some 1
      else if ch = CHR ''2'' then Some 2 else if ch = CHR ''3'' then Some 3
      else if ch = CHR ''4'' then Some 4 else if ch = CHR ''5'' then Some 5
      else if ch = CHR ''6'' then Some 6 else if ch = CHR ''7'' then Some 7
      else if ch = CHR ''8'' then Some 8 else if ch = CHR ''9'' then Some 9
      else None)"

definition is_space :: "char \<Rightarrow> bool" where
  "is_space ch = (ch \<in> set [CHR '' '', CHR 0x09, CHR 0x0A, CHR 0x0B, CHR 0x0C, CHR 0x0D])"

definition py_strip :: "string \<Rightarrow> string" where
  "py_strip s = rev (dropWhile is_space (rev (dropWhile is_space s)))"

fun parse_digits :: "nat \<Rightarrow> string \<Rightarrow> nat option" where
  "parse_digits acc [] = Some acc"
| "parse_digits acc (ch # cs) =
     (if ch = CHR ''_'' then
        (case cs of
           [] \<Rightarrow> None
         | d # ds \<Rightarrow> (case digit_val d of None \<Rightarrow> None
                      | Some v \<Rightarrow> parse_digits (acc * 10 + v) ds))
      else (case digit_val ch of None \<Rightarrow> None
            | Some v \<Rightarrow> parse_digits (acc * 10 + v) cs))"

definition parse_nat :: "string \<Rightarrow> nat option" where
  "parse_nat s =
     (case s of
        [] \<Rightarrow> None
      | ch # cs \<Rightarrow> (case digit_val ch of None \<Rightarrow> None | Some v \<Rightarrow> parse_digits v cs))"

definition py_int :: "string \<Rightarrow> int option" where
  "py_int s =
     (case py_strip s of
        [] \<Rightarrow> None
      | ch # cs \<Rightarrow>
          if ch = CHR ''-'' then map_option (\<lambda>n. - int n) (parse_nat cs)
          else if ch = CHR ''+'' then map_option int (parse_nat cs)
          else map_option int (parse_nat (ch # cs)))"

section \<open>The CSV file and the exporter\<close>

text \<open>
  The output path either holds no regular file or holds a file, seen through the
  \<open>csv\<close> module as the list of rows of fields that \<open>csv.reader\<close> gives. A text is a
  list of bytes, the UTF-8 form of the characters. The code appends bytes, so what a new
  line of text becomes depends on how the text of the file ends:
  \<^item> \<open>File rows\<close>: between records, that is, the text is empty or ends with a line
    terminator outside a quoted field. Every file the exporter wrote ends so.
  \<^item> \<open>Unfinished rows in_quotes\<close>: inside the last record, which has no line
    terminator yet; \<open>in_quotes\<close> tells whether the text ends inside a quoted field. The
    reader gives the unfinished record as the last row.
\<close>

type_synonym csv_row = "string list"

datatype csv_file = Absent | File "csv_row list" | Unfinished "csv_row list" bool

fun rows_of :: "csv_file \<Rightarrow> csv_row list" where
  "rows_of Absent = []"
| "rows_of (File rows) = rows"
| "rows_of (Unfinished rows in_quotes) = rows"

fun well_ended :: "csv_file \<Rightarrow> bool" where
  "well_ended Absent = True"
| "well_ended (File rows) = True"
| "well_ended (Unfinished rows in_quotes) = False"

text \<open>
  \<open>csv.writer.writerow\<close> on the file opened for appending, for fields that need no
  quoting (no comma, quote or line end; the fields of the exporter are such). The bytes
  written are the fields joined by commas and a line terminator. Between records they
  are a new row. Inside an unquoted record the first field continues the last field of
  that record and the others follow it. Inside a quoted field the whole line, with its
  line end as the reader translates it, continues that field, and the quotes stay open.
\<close>

fun join_fields :: "csv_row \<Rightarrow> string" where
  "join_fields [] = []"
| "join_fields [x] = x"
| "join_fields (x # y # ys) = x @ '','' @ join_fields (y # ys)"

definition glue_fields :: "csv_row \<Rightarrow> csv_row list \<Rightarrow> csv_row list" where
  "glue_fields cells rows =
     (if rows = [] \<or> last rows = [] \<or> cells = [] then rows @ [cells]
      else butlast rows @ [butlast (last rows) @ [last (last rows) @ hd cells] @ tl cells])"

definition glue_text :: "string \<Rightarrow> csv_row list \<Rightarrow> csv_row list" where
  "glue_text text rows =
     (if rows = [] \<or> last rows = [] then rows @ [[text]]
      else butlast rows @ [butlast (last rows) @ [last (last rows) @ text]])"

fun writerow :: "csv_row \<Rightarrow> csv_file \<Rightarrow> csv_file" where
  "writerow cells Absent = File [cells]"
| "writerow cells (File rows) = File (rows @ [cells])"
| "writerow cells (Unfinished rows False) = File (glue_fields cells rows)"
| "writerow cells (Unfinished rows True) =
     Unfinished (glue_text (join_fields cells @ [CHR 0x0A]) rows) True"

text \<open>
  What the surroundings do to one call of \<open>export_to_csv\<close>.
  \<^item> \<open>read_error\<close>: the error, if any, of opening, decoding and reading the file
    (no permission, bytes that are not UTF-8, a field beyond the size limit of the
    reader).
  \<^item> \<open>write_error\<close>: the error, if any, of opening the file for appending; the file
    is then as before. A write that fails after the file was opened (a full disk at the
    flush) is not covered, and \<open>str\<close> of the parameter and of the integers written
    is taken not to raise: they are below the interpreter's limit of digits.
  \<^item> \<open>max_str_digits\<close>: the interpreter's limit on the digits of an integer read
    from text (4300 unless configured; 0 is no limit, as before Python 3.11).
  \<^item> \<open>unicode_int\<close>: what \<open>int\<close> gives on a text with a character outside ASCII.
    It depends on the Unicode tables of the interpreter (decimal digits and spaces of any
    script are accepted), which are not in the repository.
\<close>

record io =
  read_error :: "exn option"
  write_error :: "exn option"
  max_str_digits :: nat
  unicode_int :: "string \<Rightarrow> int option"

text \<open>
  \<open>int(s)\<close> of Python. On ASCII text it is \<open>py_int\<close>, refused with a
  \<open>ValueError\<close> when the digits are more than 640 and more than a positive limit.
\<close>

definition is_ascii :: "char \<Rightarrow> bool" where
  "is_ascii ch = (of_char ch < (128::nat))"

definition over_limit :: "io \<Rightarrow> nat \<Rightarrow> bool" where
  "over_limit os digits = (640 < digits \<and> 0 < max_str_digits os \<and> max_str_digits os < digits)"

definition int_conv :: "io \<Rightarrow> string \<Rightarrow> int option" where
  "int_conv os s =
     (if \<exists>ch\<in>set s. \<not> is_ascii ch then unicode_int os s
      else
        (case py_int s of
           None \<Rightarrow> None
         | Some n \<Rightarrow>
             if over_limit os (length (filter (\<lambda>ch. digit_val ch \<noteq> None) s)) then None
             else Some n))"

text \<open>
  A row of \<open>csv.DictReader\<close>: the field names zipped with the fields, a later
  duplicate name overriding an earlier one; then each name beyond the length of the row
  is set to \<open>None\<close>. The value \<open>None\<close> of the map is a missing key.
\<close>

definition dict_row :: "csv_row \<Rightarrow> csv_row \<Rightarrow> (string \<rightharpoonup> string option)" where
  "dict_row fieldnames row =
     map_of (rev (zip fieldnames (map Some row)
                  @ map (\<lambda>k. (k, None)) (drop (length row) fieldnames)))"

text \<open>
  \<open>list(csv.DictReader(csvfile))\<close>: the first row gives the field names, the empty rows
  after it are skipped.
\<close>

definition dict_reader :: "csv_row list \<Rightarrow> (string \<rightharpoonup> string option) list" where
  "dict_reader rows =
     (case rows of
        [] \<Rightarrow> []
      | fieldnames # rest \<Rightarrow> map (dict_row fieldnames) (filter (\<lambda>r. r \<noteq> []) rest))"

text \<open>
  Line 231, \<open>[int(r['RUN']) for r in rows if r['PARAM'] == str(param)]\<close>: for each row
  the condition is evaluated first, and \<open>int(r['RUN'])\<close> only for a row that passes it.
\<close>

fun matching_rows :: "io \<Rightarrow> string \<Rightarrow> (string \<rightharpoonup> string option) list \<Rightarrow> exn + int list" where
  "matching_rows os p [] = Inr []"
| "matching_rows os p (r # rs) =
     (case r ''PARAM'' of
        None \<Rightarrow> Inl (Exception ''KeyError: PARAM'')
      | Some v \<Rightarrow>
          if v = Some p then
            (case r ''RUN'' of
               None \<Rightarrow> Inl (Exception ''KeyError: RUN'')
             | Some None \<Rightarrow> Inl (Exception ''TypeError'')
             | Some (Some s) \<Rightarrow>
                 (case int_conv os s of
                    None \<Rightarrow> Inl (Exception ''ValueError'')
                  | Some n \<Rightarrow>
                      (case matching_rows os p rs of
                         Inl e \<Rightarrow> Inl e
                       | Inr ns \<Rightarrow> Inr (n # ns))))
          else matching_rows os p rs)"

text \<open>Lines 224 to 235: the run number.\<close>

definition next_run :: "io \<Rightarrow> csv_file \<Rightarrow> int \<Rightarrow> int" where
  "next_run os fs param =
     (if fs = Absent then 1
      else
        (case read_error os of
           Some e \<Rightarrow> 1
         | None \<Rightarrow>
             (case matching_rows os (py_str param) (dict_reader (rows_of fs)) of
                Inl e \<Rightarrow> 1
              | Inr ns \<Rightarrow> if ns \<noteq> [] then Max (set ns) + 1 else 1)))"

text \<open>\<open>int(x)\<close> of a float: the fraction is dropped, towards zero.\<close>

definition py_trunc :: "rat \<Rightarrow> int" where
  "py_trunc x = (if 0 \<le> x then \<lfloor>x\<rfloor> else \<lceil>x\<rceil>)"

text \<open>
  \<open>statistics.mean\<close> of floats: the exact mean, rounded to a float. It is called on a
  non-empty list only.
\<close>

definition mean :: "(rat \<Rightarrow> rat) \<Rightarrow> rat list \<Rightarrow> rat" where
  "mean rnd xs = rnd (sum_list xs / of_nat (length xs))"

definition avg_time_ms :: "(rat \<Rightarrow> rat) \<Rightarrow> request_result list \<Rightarrow> int" where
  "avg_time_ms rnd successful =
     (if successful \<noteq> [] then py_trunc (mean rnd (map (\<lambda>r. rnd (duration r * 1000)) successful))
      else 0)"

definition failed_flag :: "request_result list \<Rightarrow> int" where
  "failed_flag failed = (if length failed > 0 then 1 else 0)"

definition header :: csv_row where
  "header = [''PARAM'', ''AVG_TIME'', ''RUN'', ''FAILED'']"

definition export_to_csv ::
  "(rat \<Rightarrow> rat) \<Rightarrow> io \<Rightarrow> request_result list \<Rightarrow> int \<Rightarrow> int \<Rightarrow> int \<Rightarrow> csv_file \<Rightarrow> csv_file" where
  "export_to_csv rnd os results concurrent_users requests_per_user limit fs =
     (if results = [] then fs
      else
        (let successful = filter success results;
             failed = filter (\<lambda>r. \<not> success r) results;
             avg = avg_time_ms rnd successful;
             param = concurrent_users;
             flag = failed_flag failed;
             file_exists = (fs \<noteq> Absent);
             run_number = next_run os fs param
         in case write_error os of
              Some e \<Rightarrow> fs
            | None \<Rightarrow>
                writerow [py_str param, py_str avg @ ''ms'', py_str run_number, py_str flag]
                  (if \<not> file_exists then writerow header (File []) else fs)))"

text \<open>
  A run of exports, one after the other, each reading and writing without error, with
  no limit on the digits of an integer.
\<close>

definition ok_io :: io where
  "ok_io = \<lparr>read_error = None, write_error = None, max_str_digits = 0,
            unicode_int = (\<lambda>s. None)\<rparr>"

record export_call =
  call_results :: "request_result list"
  call_users :: int
  call_requests :: int
  call_limit :: int

fun run_exports :: "(rat \<Rightarrow> rat) \<Rightarrow> export_call list \<Rightarrow> csv_file \<Rightarrow> csv_file" where
  "run_exports rnd [] fs = fs"
| "run_exports rnd (x # xs) fs =
     run_exports rnd xs
       (export_to_csv rnd ok_io (call_results x) (call_users x) (call_requests x) (call_limit x) fs)"

text \<open>The data rows of a file written by the exporter, and the \<open>RUN\<close> fields of a parameter.\<close>

definition data_rows :: "csv_file \<Rightarrow> csv_row list" where
  "data_rows fs = tl (rows_of fs)"

definition runs_of :: "int \<Rightarrow> csv_file \<Rightarrow> string list" where
  "runs_of param fs = map (\<lambda>r. r ! 2) (filter (\<lambda>r. r ! 0 = py_str param) (data_rows fs))"

text \<open>
  What makes line 231 raise at a row: no key \<open>PARAM\<close>; or the row passes the condition
  and has no key \<open>RUN\<close>, or the value \<open>None\<close> there, or a text that \<open>int\<close> refuses.
\<close>

definition row_raises :: "io \<Rightarrow> string \<Rightarrow> (string \<rightharpoonup> string option) \<Rightarrow> bool" where
  "row_raises os p r =
     (case r ''PARAM'' of
        None \<Rightarrow> True
      | Some v \<Rightarrow>
          v = Some p \<and>
          (case r ''RUN'' of
             None \<Rightarrow> True
           | Some None \<Rightarrow> True
           | Some (Some s) \<Rightarrow> int_conv os s = None))"

section \<open>The load driver\<close>












section \<open>The deletion utility\<close>

text \<open>
  The datastore as the list of the keys of its entities, a key being a kind and an
  identifier. A keys-only query of kind \<open>Post\<close> with a limit gives the first keys of that
  kind; the transaction deletes the entities of the keys fetched.
\<close>

type_synonym entity_key = "string \<times> nat"

definition is_post :: "entity_key \<Rightarrow> bool" where
  "is_post k = (fst k = ''Post'')"

definition fetch_posts :: "nat \<Rightarrow> entity_key list \<Rightarrow> entity_key list" where
  "fetch_posts batch_size store = take batch_size (filter is_post store)"

definition delete_keys :: "entity_key list \<Rightarrow> entity_key list \<Rightarrow> entity_key list" where
  "delete_keys posts store = filter (\<lambda>k. k \<notin> set posts) store"

datatype event = Fetched nat | Deleted nat

text \<open>
  \<open>delete_all_posts\<close>: the loop of lines 9 to 22, with the log of the fetches and the
  deletions. The loop ends: each pass deletes a Post.
\<close>

function delete_all_posts :: "nat \<Rightarrow> entity_key list \<Rightarrow> event list \<times> entity_key list" where
  "delete_all_posts batch_size store =
     (if fetch_posts batch_size store = [] then ([Fetched 0], store)
      else
        (case delete_all_posts batch_size (delete_keys (fetch_posts batch_size store) store) of
           (events, store') \<Rightarrow>
             (Fetched (length (fetch_posts batch_size store))
                # Deleted (length (fetch_posts batch_size store)) # events, store')))"
  by pat_completeness auto
termination
proof (relation "measure (\<lambda>(batch_size, store). length (filter is_post store))")
  show "wf (measure (\<lambda>(batch_size, store). length (filter is_post store)))"
    by simp
next
  fix batch_size :: nat and store :: "entity_key list"
  assume "fetch_posts batch_size store \<noteq> []"
  then obtain k ks where f: "fetch_posts batch_size store = k # ks"
    by (cases "fetch_posts batch_size store") auto
  have "k \<in> set (take batch_size (filter is_post store))"
    using f by (simp add: fetch_posts_def)
  then have k: "k \<in> set (filter is_post store)"
    by (rule in_set_takeD)
  have "filter is_post (delete_keys (fetch_posts batch_size store) store)
          = filter (\<lambda>x. x \<notin> set (k # ks)) (filter is_post store)"
    by (simp add: delete_keys_def f conj_commute)
  moreover have "length (filter (\<lambda>x. x \<notin> set (k # ks)) (filter is_post store))
      < length (filter is_post store)"
    using k by (intro length_filter_less [of k]) auto
  ultimately show "((batch_size, delete_keys (fetch_posts batch_size store) store),
                    (batch_size, store))
      \<in> measure (\<lambda>(batch_size, store). length (filter is_post store))"
    by simp
qed

subsection \<open>Concrete runs\<close>

definition result_ok :: request_result where
  "result_ok = \<lparr>user_of = ''user1'', duration = 7 / 2000, success = True, posts_count = 5,
                error = None\<rparr>"


definition result_failed :: request_result where
  "result_failed = \<lparr>user_of = ''user3'', duration = 1 / 10, success = False, posts_count = 0,
                    error = Some ''backend down''\<rparr>"


text \<open>
  An interpreter with the usual limit of 4300 digits, whose \<open>int\<close> reads the
  Arabic-Indic digit three (U+0663, the bytes D9 A3) as 3.
\<close>

definition usual_io :: io where
  "usual_io = \<lparr>read_error = None, write_error = None, max_str_digits = 4300,
               unicode_int = (\<lambda>s. if s = [CHR 0xD9, CHR 0xA3] then Some 3 else None)\<rparr>"

text \<open>A file whose first data row, of another parameter, has a malformed \<open>RUN\<close>.\<close>

definition mixed_file :: csv_file where
  "mixed_file = File [header, [''5'', ''1ms'', ''abc'', ''0''], [''3'', ''1ms'', ''2'', ''0'']]"

text \<open>The same rows under the parameter 3: now the malformed row passes the condition.\<close>

definition spoiled_file :: csv_file where
  "spoiled_file = File [header, [''3'', ''1ms'', ''abc'', ''0''], [''3'', ''1ms'', ''2'', ''0'']]"

text \<open>
  Files of the parameter 3 whose first data row has a \<open>RUN\<close> of 4301 digits, a
  \<open>RUN\<close> that starts with the control character 1C, and a \<open>RUN\<close> written with the
  Arabic-Indic digit three.
\<close>

definition long_run :: string where
  "long_run = replicate 4301 (CHR ''1'')"

definition long_file :: csv_file where
  "long_file = File [header, [''3'', ''1ms'', long_run, ''0''], [''3'', ''1ms'', ''2'', ''0'']]"

definition control_file :: csv_file where
  "control_file = File [header, [''3'', ''1ms'', [CHR 0x1C, CHR ''7''], ''0'']]"

definition arabic_file :: csv_file where
  "arabic_file = File [header, [''3'', ''1ms'', [CHR 0xD9, CHR 0xA3], ''0'']]"


text \<open>Three exports from a fresh path: parameter 3, then 5, then 3 again.\<close>

definition interleaved_calls :: "export_call list" where
  "interleaved_calls =
     [\<lparr>call_results = [result_ok], call_users = 3, call_requests = 1, call_limit = 20\<rparr>,
      \<lparr>call_results = [result_ok], call_users = 5, call_requests = 1, call_limit = 20\<rparr>,
      \<lparr>call_results = [result_ok, result_failed], call_users = 3, call_requests = 1,
        call_limit = 20\<rparr>]"




text \<open>A datastore of 1200 posts and one user.\<close>

definition big_store :: "entity_key list" where
  "big_store = (''User'', 0) # map (\<lambda>n. (''Post'', n)) [0..<1200]"

section \<open>Properties of the timeline resolver\<close>

subsection \<open>The follow-set\<close>

lemma set_py_list_of_set: "set (py_list_of_set h xs) = set xs"
  by (simp add: py_list_of_set_def)

lemma distinct_py_list_of_set: "distinct (py_list_of_set h xs)"
  by (simp add: py_list_of_set_def)

lemma follow_set_self: "user \<in> set (follow_set h ue user)"
  by (simp add: follow_set_def set_py_list_of_set Let_def)

lemma follow_set_distinct: "distinct (follow_set h ue user)"
  by (simp add: follow_set_def distinct_py_list_of_set Let_def)

lemma follow_set_absent: "follow_set h None user = [user]"
  by (simp add: follow_set_def py_list_of_set_def)

lemma follow_set_members:
  "set (follow_set h ue user) =
     insert user (case ue of None \<Rightarrow> {}
                  | Some e \<Rightarrow> (case follows_attr e of None \<Rightarrow> {} | Some fs \<Rightarrow> set fs))"
  by (auto simp add: follow_set_def set_py_list_of_set Let_def split: option.splits)

subsection \<open>The fan-out loop\<close>

lemma fan_out_trace:
  "fan_out c limit as posts = (tr, r) \<Longrightarrow> call \<in> set tr \<Longrightarrow> \<exists>a\<in>set as. call = EqFetch a limit"
  by (induction as arbitrary: posts tr r) (auto split: sum.splits prod.splits, blast)

lemma fan_out_first: "as \<noteq> [] \<Longrightarrow> EqFetch (hd as) limit \<in> set (fst (fan_out c limit as posts))"
  by (cases as) (auto split: sum.splits prod.splits)

lemma fan_out_isl:
  "fan_out c limit as posts = (tr, r) \<Longrightarrow> isl r = (\<exists>a\<in>set as. isl (eq_fetch c a limit))"
  by (induction as arbitrary: posts tr r) (auto split: sum.splits prod.splits)

lemma fan_out_Inl:
  "fan_out c limit as posts = (tr, Inl e) \<Longrightarrow> \<exists>a\<in>set as. eq_fetch c a limit = Inl e"
  by (induction as arbitrary: posts tr) (auto split: sum.splits prod.splits)

lemma fan_out_Inr:
  "\<forall>a\<in>set as. eq_fetch c a limit = Inr (res a) \<Longrightarrow>
   fan_out c limit as posts = (map (\<lambda>a. EqFetch a limit) as, Inr (posts @ concat (map res as)))"
  by (induction as arbitrary: posts) (auto split: sum.splits prod.splits)

lemma fan_out_strategy:
  "fan_out c limit as posts = (tr, r) \<Longrightarrow> call \<in> set tr \<Longrightarrow> strategy_of call = 3"
  by (drule (1) fan_out_trace) auto

lemma sorted_after_three:
  "\<forall>x\<in>set xs. strategy_of x = 3 \<Longrightarrow> sorted (map strategy_of xs)"
  by (induction xs) auto

subsection \<open>One equation per strategy\<close>

lemma try_query_ok:
  "in_fetch c fs limit = Inr ps \<Longrightarrow> try_query c fs limit = ([InFetch fs limit], Inr ps)"
  by (simp add: try_query_def)

lemma try_query_fail:
  "in_fetch c fs limit = Inl e \<Longrightarrow> fan_out c limit fs [] = (tr3, r3) \<Longrightarrow>
   try_query c fs limit =
     (InFetch fs limit # tr3,
      case r3 of Inl e' \<Rightarrow> Inl e' | Inr posts \<Rightarrow> Inr (py_slice_to (sorted_desc posts) limit))"
  by (simp add: try_query_def split: sum.splits)

lemma try_gql_ok:
  "has_gql c \<Longrightarrow> gql_fetch c fs limit = Inr ps \<Longrightarrow>
   try_gql c fs limit = ([GqlFetch fs limit], ps, True)"
  by (simp add: try_gql_def)

lemma try_gql_not_used:
  "\<not> strategy1_ok c fs limit \<Longrightarrow>
   try_gql c fs limit = (if has_gql c then [GqlFetch fs limit] else [], [], False)"
  by (cases "gql_fetch c fs limit") (simp_all add: strategy1_ok_def try_gql_def)

lemma get_timeline_unfold:
  "user \<noteq> [] \<Longrightarrow> get_user c user = Inr ue \<Longrightarrow>
   get_timeline c h user limit =
     (case try_gql c (follow_set h ue user) limit of
        (tr1, timeline, used_gql) \<Rightarrow>
          if used_gql then (GetUser user # tr1, Inr timeline)
          else (case try_query c (follow_set h ue user) limit of
                  (tr2, r) \<Rightarrow> (GetUser user # tr1 @ tr2, r)))"
  by (simp add: get_timeline_def Let_def)

lemma get_timeline_strategy1:
  assumes "user \<noteq> []" "get_user c user = Inr ue" "has_gql c"
    "gql_fetch c (follow_set h ue user) limit = Inr ps"
  shows "get_timeline c h user limit =
           ([GetUser user, GqlFetch (follow_set h ue user) limit], Inr ps)"
  using assms by (simp add: get_timeline_unfold try_gql_ok)

lemma get_timeline_strategy2:
  assumes "user \<noteq> []" "get_user c user = Inr ue"
    "\<not> strategy1_ok c (follow_set h ue user) limit"
    "in_fetch c (follow_set h ue user) limit = Inr ps"
  shows "get_timeline c h user limit =
           (GetUser user # (if has_gql c then [GqlFetch (follow_set h ue user) limit] else [])
              @ [InFetch (follow_set h ue user) limit], Inr ps)"
  using assms by (simp add: get_timeline_unfold try_gql_not_used try_query_ok)

lemma get_timeline_strategy3:
  assumes "user \<noteq> []" "get_user c user = Inr ue"
    "\<not> strategy1_ok c (follow_set h ue user) limit"
    "in_fetch c (follow_set h ue user) limit = Inl e"
    "fan_out c limit (follow_set h ue user) [] = (tr3, r3)"
  shows "get_timeline c h user limit =
           (GetUser user # (if has_gql c then [GqlFetch (follow_set h ue user) limit] else [])
              @ InFetch (follow_set h ue user) limit # tr3,
            case r3 of Inl e' \<Rightarrow> Inl e'
                     | Inr posts \<Rightarrow> Inr (py_slice_to (sorted_desc posts) limit))"
  using assms by (simp add: get_timeline_unfold try_gql_not_used try_query_fail)

text \<open>Every call of the resolver is about the user or its follow-set.\<close>

lemma get_timeline_calls:
  assumes "user \<noteq> []" and "get_user c user = Inr ue"
    and "call \<in> set (fst (get_timeline c h user limit))"
  shows "call = GetUser user \<or> call = GqlFetch (follow_set h ue user) limit \<or>
         call = InFetch (follow_set h ue user) limit \<or>
         (\<exists>a\<in>set (follow_set h ue user). call = EqFetch a limit)"
proof -
  let ?fs = "follow_set h ue user"
  show ?thesis
  proof (cases "strategy1_ok c ?fs limit")
    case True
    then obtain ps where g: "has_gql c" "gql_fetch c ?fs limit = Inr ps"
      by (cases "gql_fetch c ?fs limit") (auto simp add: strategy1_ok_def)
    show ?thesis
      using assms(3) get_timeline_strategy1 [OF assms(1,2) g] by auto
  next
    case s1: False
    show ?thesis
    proof (cases "in_fetch c ?fs limit")
      case (Inr ps)
      show ?thesis
        using assms(3) get_timeline_strategy2 [OF assms(1,2) s1 Inr]
        by (auto split: if_splits)
    next
      case (Inl e)
      obtain tr3 r3 where f: "fan_out c limit ?fs [] = (tr3, r3)"
        by (cases "fan_out c limit ?fs []") auto
      show ?thesis
        using assms(3) get_timeline_strategy3 [OF assms(1,2) s1 Inl f] fan_out_trace [OF f]
        by (auto split: if_splits)
    qed
  qed
qed

subsection \<open>The descending sort and the slice\<close>

lemma mset_sorted_desc: "mset (sorted_desc ps) = mset ps"
  by (simp add: sorted_desc_def)

lemma sorted_wrt_sorted_desc:
  "sorted_wrt (\<lambda>p q. created q \<le> created p) (sorted_desc ps)"
proof -
  have "sorted (map (\<lambda>p. - created p) (sorted_desc ps))"
    by (simp add: sorted_desc_def)
  then show ?thesis
    by (simp add: sorted_wrt_map)
qed

lemma stable_sorted_desc:
  "filter (\<lambda>p. created p = t) (sorted_desc ps) = filter (\<lambda>p. created p = t) ps"
proof -
  have "filter (\<lambda>p. - created p = - t) (sort_key (\<lambda>p. - created p) ps)
          = filter (\<lambda>p. - created p = - t) ps"
    by (rule sort_key_stable)
  then show ?thesis
    by (simp add: sorted_desc_def)
qed

lemma py_slice_to_nonneg: "0 \<le> limit \<Longrightarrow> py_slice_to xs limit = take (nat limit) xs"
  by (simp add: py_slice_to_def)

subsection \<open>Strategy order, fan-out result and follow-set\<close>

text \<open>
  C1. In \<open>get_timeline\<close> the strategies are attempted in the order query language,
  \<open>IN\<close> filter, per-author fan-out (the log of calls is sorted by strategy); the first is
  attempted exactly when the client has the capability; the second is attempted exactly
  when the first did not succeed, and the third exactly when the first did not succeed
  and the second raised, so the errors of the first two are swallowed; a success of the
  first or second strategy is the result; and when the third strategy runs, the resolver
  raises exactly when one of the per-author queries raises, with the error of that query.
\<close>

theorem get_timeline_strategy_order:
  assumes "user \<noteq> []" and "get_user c user = Inr ue"
  shows "sorted (map strategy_of (fst (get_timeline c h user limit))) \<and>
     (GqlFetch (follow_set h ue user) limit \<in> set (fst (get_timeline c h user limit))
        \<longleftrightarrow> has_gql c) \<and>
     (InFetch (follow_set h ue user) limit \<in> set (fst (get_timeline c h user limit))
        \<longleftrightarrow> \<not> strategy1_ok c (follow_set h ue user) limit) \<and>
     ((\<exists>a. EqFetch a limit \<in> set (fst (get_timeline c h user limit)))
        \<longleftrightarrow> strategy3_tried c (follow_set h ue user) limit) \<and>
     (strategy1_ok c (follow_set h ue user) limit \<longrightarrow>
        snd (get_timeline c h user limit) = gql_fetch c (follow_set h ue user) limit) \<and>
     (\<not> strategy1_ok c (follow_set h ue user) limit \<and>
        \<not> isl (in_fetch c (follow_set h ue user) limit) \<longrightarrow>
        snd (get_timeline c h user limit) = in_fetch c (follow_set h ue user) limit) \<and>
     (strategy3_tried c (follow_set h ue user) limit \<longrightarrow>
        (isl (snd (get_timeline c h user limit))
           \<longleftrightarrow> (\<exists>a\<in>set (follow_set h ue user). isl (eq_fetch c a limit))) \<and>
        (\<forall>e. snd (get_timeline c h user limit) = Inl e \<longrightarrow>
           (\<exists>a\<in>set (follow_set h ue user). eq_fetch c a limit = Inl e)))"
proof -
  let ?fs = "follow_set h ue user"
  let ?g = "if has_gql c then [GqlFetch ?fs limit] else []"
  show ?thesis
  proof (cases "strategy1_ok c ?fs limit")
    case True
    then obtain ps where g: "has_gql c" "gql_fetch c ?fs limit = Inr ps"
      by (cases "gql_fetch c ?fs limit") (auto simp add: strategy1_ok_def)
    have "get_timeline c h user limit = ([GetUser user, GqlFetch ?fs limit], Inr ps)"
      using assms g by (rule get_timeline_strategy1)
    with True g show ?thesis
      by (simp add: strategy3_tried_def)
  next
    case s1: False
    show ?thesis
    proof (cases "in_fetch c ?fs limit")
      case (Inr ps)
      have "get_timeline c h user limit = (GetUser user # ?g @ [InFetch ?fs limit], Inr ps)"
        using assms s1 Inr by (rule get_timeline_strategy2)
      with s1 Inr show ?thesis
        by (simp add: strategy3_tried_def)
    next
      case (Inl e)
      obtain tr3 r3 where f: "fan_out c limit ?fs [] = (tr3, r3)"
        by (cases "fan_out c limit ?fs []") auto
      have eq: "get_timeline c h user limit =
          (GetUser user # ?g @ InFetch ?fs limit # tr3,
           case r3 of Inl e' \<Rightarrow> Inl e'
                    | Inr posts \<Rightarrow> Inr (py_slice_to (sorted_desc posts) limit))"
        using assms s1 Inl f by (rule get_timeline_strategy3)
      have three: "\<forall>x\<in>set tr3. strategy_of x = 3"
        using f by (auto dest: fan_out_strategy)
      have nonempty: "?fs \<noteq> []"
        using follow_set_self [of user h ue] by auto
      have first: "EqFetch (hd ?fs) limit \<in> set tr3"
        using fan_out_first [OF nonempty, of limit c "[]"] f by simp
      have no_gql: "GqlFetch ?fs limit \<notin> set tr3" and no_in: "InFetch ?fs limit \<notin> set tr3"
        using three by auto
      have srt: "sorted (map strategy_of (GetUser user # ?g @ InFetch ?fs limit # tr3))"
        using three sorted_after_three [OF three] by (auto simp add: sorted_append)
      have err: "isl r3 = (\<exists>a\<in>set ?fs. isl (eq_fetch c a limit))"
        using f by (rule fan_out_isl)
      have err2: "\<forall>e. r3 = Inl e \<longrightarrow> (\<exists>a\<in>set ?fs. eq_fetch c a limit = Inl e)"
        using f by (auto dest: fan_out_Inl)
      have s3: "strategy3_tried c ?fs limit"
        using s1 Inl by (simp add: strategy3_tried_def)
      have r1: "isl (snd (get_timeline c h user limit)) = isl r3"
        by (cases r3) (simp_all add: eq)
      have r2: "\<forall>e. snd (get_timeline c h user limit) = Inl e \<longrightarrow> r3 = Inl e"
        by (cases r3) (simp_all add: eq)
      have t: "fst (get_timeline c h user limit) = GetUser user # ?g @ InFetch ?fs limit # tr3"
        by (simp add: eq)
      have c1: "sorted (map strategy_of (fst (get_timeline c h user limit)))"
        using srt by (simp only: t)
      have c2: "GqlFetch ?fs limit \<in> set (fst (get_timeline c h user limit)) \<longleftrightarrow> has_gql c"
        using no_gql by (simp add: t)
      have c3: "InFetch ?fs limit \<in> set (fst (get_timeline c h user limit))"
        by (simp add: t)
      have c4: "\<exists>a. EqFetch a limit \<in> set (fst (get_timeline c h user limit))"
        using first by (auto simp add: t)
      show ?thesis
        using c1 c2 c3 c4 s1 s3 Inl r1 r2 err err2 by simp
    qed
  qed
qed

lemma fallback_follow_set:
  "follow_set rank (Some (UserEntity (Some [''bob'']))) ''alice'' = [''bob'', ''alice'']"
  by (simp add: follow_set_def py_list_of_set_def rank_def)

theorem get_timeline_strategy_order_witness:
  "''alice'' \<noteq> [] \<and>
   get_user broken_client ''alice'' = Inr (Some (UserEntity (Some [''bob'']))) \<and>
   sorted (map strategy_of (fst (get_timeline broken_client rank ''alice'' 2))) \<and>
   GqlFetch [''bob'', ''alice''] 2 \<in> set (fst (get_timeline broken_client rank ''alice'' 2)) \<and>
   InFetch [''bob'', ''alice''] 2 \<in> set (fst (get_timeline broken_client rank ''alice'' 2)) \<and>
   strategy3_tried broken_client [''bob'', ''alice''] 2 \<and>
   isl (snd (get_timeline broken_client rank ''alice'' 2))"
proof -
  have h1: "''alice'' \<noteq> []" by simp
  have h2: "get_user broken_client ''alice'' = Inr (Some (UserEntity (Some [''bob''])))"
    by (simp add: broken_client_def fallback_client_def)
  have s3: "strategy3_tried broken_client [''bob'', ''alice''] 2"
    by (simp add: strategy3_tried_def strategy1_ok_def broken_client_def fallback_client_def)
  have g: "has_gql broken_client"
    by (simp add: broken_client_def fallback_client_def)
  have s1: "\<not> strategy1_ok broken_client [''bob'', ''alice''] 2"
    by (simp add: strategy1_ok_def broken_client_def fallback_client_def)
  have e: "\<exists>a\<in>set [''bob'', ''alice'']. isl (eq_fetch broken_client a 2)"
    by (auto simp add: broken_client_def fallback_client_def)
  show ?thesis
    using get_timeline_strategy_order [OF h1 h2, of rank 2] h2 s3 g s1 e
    by (simp only: fallback_follow_set) simp
qed

text \<open>
  C2. When the first two strategies fail and every per-author query answers,
  \<open>get_timeline\<close> with a limit that is not negative returns the per-author results,
  concatenated in the order of the follow-set, sorted by \<open>created\<close> descending (a
  permutation of them, in descending order, posts of equal timestamp in their order of
  arrival) and cut to the first \<open>limit\<close> posts; the result has at most \<open>limit\<close> posts.
\<close>

theorem get_timeline_fan_out_result:
  assumes "user \<noteq> []" and "get_user c user = Inr ue"
    and "strategy3_tried c (follow_set h ue user) limit"
    and "\<forall>a\<in>set (follow_set h ue user). eq_fetch c a limit = Inr (res a)"
    and "0 \<le> limit"
  shows "snd (get_timeline c h user limit) =
           Inr (take (nat limit) (sorted_desc (concat (map res (follow_set h ue user))))) \<and>
     int (length (take (nat limit) (sorted_desc (concat (map res (follow_set h ue user))))))
       \<le> limit \<and>
     sorted_wrt (\<lambda>p q. created q \<le> created p)
       (take (nat limit) (sorted_desc (concat (map res (follow_set h ue user))))) \<and>
     mset (sorted_desc (concat (map res (follow_set h ue user)))) =
       mset (concat (map res (follow_set h ue user))) \<and>
     (\<forall>t. filter (\<lambda>p. created p = t) (sorted_desc (concat (map res (follow_set h ue user)))) =
          filter (\<lambda>p. created p = t) (concat (map res (follow_set h ue user))))"
proof -
  let ?fs = "follow_set h ue user"
  let ?all = "concat (map res ?fs)"
  have s1: "\<not> strategy1_ok c ?fs limit"
    using assms(3) by (simp add: strategy3_tried_def)
  obtain e where in_err: "in_fetch c ?fs limit = Inl e"
    using assms(3) by (cases "in_fetch c ?fs limit") (auto simp add: strategy3_tried_def)
  have f: "fan_out c limit ?fs [] = (map (\<lambda>a. EqFetch a limit) ?fs, Inr ([] @ ?all))"
    using assms(4) by (rule fan_out_Inr)
  have "snd (get_timeline c h user limit) = Inr (py_slice_to (sorted_desc ?all) limit)"
    using get_timeline_strategy3 [OF assms(1,2) s1 in_err f] by simp
  then have r: "snd (get_timeline c h user limit) = Inr (take (nat limit) (sorted_desc ?all))"
    using assms(5) by (simp add: py_slice_to_nonneg)
  have len: "int (length (take (nat limit) (sorted_desc ?all))) \<le> limit"
    using assms(5) by (auto simp add: min_def)
  have srt: "sorted_wrt (\<lambda>p q. created q \<le> created p) (take (nat limit) (sorted_desc ?all))"
    using sorted_wrt_sorted_desc [of ?all] by (rule sorted_wrt_take)
  show ?thesis
    using r len srt mset_sorted_desc [of ?all] stable_sorted_desc [of _ ?all]
    by blast
qed

lemma fallback_sorted:
  "sorted_desc [post_b, post_c, post_a] = [post_b, post_c, post_a]"
  by (simp add: sorted_desc_def post_a_def post_b_def post_c_def)

lemma fallback_sorted_rev:
  "sorted_desc [post_a, post_c, post_b] = [post_b, post_c, post_a]"
  by (simp add: sorted_desc_def post_a_def post_b_def post_c_def)

theorem get_timeline_fan_out_result_witness:
  "''alice'' \<noteq> [] \<and>
   get_user fallback_client ''alice'' = Inr (Some (UserEntity (Some [''bob'']))) \<and>
   strategy3_tried fallback_client [''bob'', ''alice''] 2 \<and>
   eq_fetch fallback_client ''bob'' 2 = Inr [post_b, post_c] \<and>
   eq_fetch fallback_client ''alice'' 2 = Inr [post_a] \<and>
   (0::int) \<le> 2 \<and>
   snd (get_timeline fallback_client rank ''alice'' 2) = Inr [post_b, post_c] \<and>
   snd (get_timeline fallback_client (\<lambda>u. 0) ''alice'' 2) = Inr [post_b, post_c] \<and>
   snd (get_timeline fallback_client rank ''alice'' 0) = Inr []"
proof -
  let ?res = "\<lambda>a. if a = ''bob'' then [post_b, post_c] else [post_a]"
  let ?ue = "Some (UserEntity (Some [''bob'']))"
  have h1: "''alice'' \<noteq> []" by simp
  have h2: "get_user fallback_client ''alice'' = Inr ?ue"
    by (simp add: fallback_client_def)
  have fs0: "follow_set (\<lambda>u. 0) ?ue ''alice'' = [''bob'', ''alice'']"
    by (simp add: follow_set_def py_list_of_set_def)
  have h3: "\<And>l. strategy3_tried fallback_client [''bob'', ''alice''] l"
    by (simp add: strategy3_tried_def strategy1_ok_def fallback_client_def)
  have h4: "\<And>l. \<forall>a\<in>set [''bob'', ''alice'']. eq_fetch fallback_client a l = Inr (?res a)"
    by (simp add: fallback_client_def)
  have a: "snd (get_timeline fallback_client rank ''alice'' 2) =
      Inr (take (nat 2) (sorted_desc (concat (map ?res [''bob'', ''alice'']))))"
    using get_timeline_fan_out_result [of "''alice''" fallback_client ?ue rank 2 ?res]
      h2 h3 [of 2] h4 [of 2]
    by (simp only: fallback_follow_set) simp
  have b: "snd (get_timeline fallback_client (\<lambda>u. 0) ''alice'' 2) =
      Inr (take (nat 2) (sorted_desc (concat (map ?res [''bob'', ''alice'']))))"
    using get_timeline_fan_out_result [of "''alice''" fallback_client ?ue "\<lambda>u. 0" 2 ?res]
      h2 h3 [of 2] h4 [of 2]
    by (simp only: fs0) simp
  have c: "snd (get_timeline fallback_client rank ''alice'' 0) =
      Inr (take (nat 0) (sorted_desc (concat (map ?res [''bob'', ''alice'']))))"
    using get_timeline_fan_out_result [of "''alice''" fallback_client ?ue rank 0 ?res]
      h2 h3 [of 0] h4 [of 0]
    by (simp only: fallback_follow_set) simp
  show ?thesis
    using a b c h2 h3 [of 2] by (simp add: fallback_sorted) (simp add: fallback_client_def)
qed

text \<open>
  C3. For a non-empty user whose record is read without error, the follow-set of
  \<open>get_timeline\<close> contains the user and has no duplicates, it is just the user when the
  record is absent, and every call of the resolver is about the user or this follow-set.
\<close>

theorem follow_set_self_inclusion:
  assumes "user \<noteq> []" and "get_user c user = Inr ue"
  shows "user \<in> set (follow_set h ue user) \<and>
     distinct (follow_set h ue user) \<and>
     (ue = None \<longrightarrow> follow_set h ue user = [user]) \<and>
     (\<forall>call\<in>set (fst (get_timeline c h user limit)).
        call = GetUser user \<or> call = GqlFetch (follow_set h ue user) limit \<or>
        call = InFetch (follow_set h ue user) limit \<or>
        (\<exists>a\<in>set (follow_set h ue user). call = EqFetch a limit))"
  using follow_set_self [of user h ue] follow_set_distinct [of h ue user]
    follow_set_absent [of h user] get_timeline_calls [OF assms, of _ h limit]
  by blast

theorem follow_set_self_inclusion_witness:
  "''zed'' \<noteq> [] \<and> get_user fallback_client ''zed'' = Inr None \<and>
   follow_set rank None ''zed'' = [''zed''] \<and>
   ''zed'' \<in> set (follow_set rank None ''zed'') \<and>
   distinct (follow_set rank None ''zed'')"
proof -
  have h1: "''zed'' \<noteq> []" by simp
  have h2: "get_user fallback_client ''zed'' = Inr None"
    by (simp add: fallback_client_def)
  show ?thesis
    using follow_set_self_inclusion [OF h1 h2, of rank] h2 by simp
qed

section \<open>Properties of the request runner\<close>

text \<open>
  C4. \<open>execute_timeline_request\<close> never raises: for every client, user and limit it
  returns a result record. When the resolver returns a sequence the record has
  \<open>success = True\<close>, the length of the sequence as \<open>posts_count\<close> and no error; when the
  resolver raises, it has \<open>success = False\<close>, \<open>posts_count = 0\<close> and the text of the error.
  The duration is the difference of the two readings of the clock in both cases.
\<close>

theorem execute_timeline_request_never_raises:
  "(\<exists>r. execute_timeline_request c h rnd t_start t_end user limit = Inr r) \<and>
   (\<forall>ps. snd (get_timeline c h user limit) = Inr ps \<longrightarrow>
      execute_timeline_request c h rnd t_start t_end user limit =
        Inr \<lparr>user_of = user, duration = rnd (t_end - t_start), success = True,
             posts_count = length ps, error = None\<rparr>) \<and>
   (\<forall>e. snd (get_timeline c h user limit) = Inl e \<longrightarrow>
      execute_timeline_request c h rnd t_start t_end user limit =
        Inr \<lparr>user_of = user, duration = rnd (t_end - t_start), success = False,
             posts_count = 0, error = Some (str_exn e)\<rparr>)"
  by (cases "snd (get_timeline c h user limit)") (simp_all add: execute_timeline_request_def)

lemma broken_timeline:
  "snd (get_timeline broken_client rank ''alice'' 2) = Inl (Exception ''backend down'')"
proof -
  have g: "get_user broken_client ''alice'' = Inr (Some (UserEntity (Some [''bob''])))"
    by (simp add: broken_client_def fallback_client_def)
  have t: "try_gql broken_client [''bob'', ''alice''] 2 = ([GqlFetch [''bob'', ''alice''] 2], [], False)"
    by (simp add: try_gql_def broken_client_def fallback_client_def)
  have q: "snd (try_query broken_client [''bob'', ''alice''] 2) = Inl (Exception ''backend down'')"
    by (simp add: try_query_def broken_client_def fallback_client_def)
  show ?thesis
    using q by (auto simp add: get_timeline_def g fallback_follow_set t Let_def split: prod.splits)
qed

theorem execute_timeline_request_never_raises_witness:
  "snd (get_timeline broken_client rank ''alice'' 2) = Inl (Exception ''backend down'') \<and>
   execute_timeline_request broken_client rank (\<lambda>x. x) 10 (21 / 2) ''alice'' 2 =
     Inr \<lparr>user_of = ''alice'', duration = 1 / 2, success = False, posts_count = 0,
          error = Some ''backend down''\<rparr> \<and>
   snd (get_timeline fallback_client rank [] 2) = Inr [] \<and>
   execute_timeline_request fallback_client rank (\<lambda>x. x) 10 (21 / 2) [] 2 =
     Inr \<lparr>user_of = [], duration = 1 / 2, success = True, posts_count = 0, error = None\<rparr>"
proof -
  have e: "snd (get_timeline fallback_client rank [] 2) = Inr []"
    by (simp add: get_timeline_def)
  show ?thesis
    using execute_timeline_request_never_raises
      [of broken_client rank "\<lambda>x. x" 10 "21 / 2" "''alice''" 2]
      execute_timeline_request_never_raises
      [of fallback_client rank "\<lambda>x. x" 10 "21 / 2" "[]" 2]
      broken_timeline e
    by simp
qed

section \<open>Properties of the deletion utility\<close>

declare delete_all_posts.simps [simp del]

lemma fetch_posts_are_posts: "k \<in> set (fetch_posts b store) \<Longrightarrow> is_post k"
  by (auto simp add: fetch_posts_def dest: in_set_takeD)

lemma fetch_posts_empty: "0 < b \<Longrightarrow> fetch_posts b store = [] \<Longrightarrow> filter is_post store = []"
  by (simp add: fetch_posts_def)

lemma delete_keys_others:
  "filter (\<lambda>k. \<not> is_post k) (delete_keys (fetch_posts b store) store)
     = filter (\<lambda>k. \<not> is_post k) store"
  by (auto simp add: delete_keys_def intro!: filter_cong dest: fetch_posts_are_posts)

lemma delete_all_posts_stop:
  "fetch_posts b store = [] \<Longrightarrow> delete_all_posts b store = ([Fetched 0], store)"
  by (simp add: delete_all_posts.simps [of b store])

lemma delete_all_posts_pass_eq:
  "fetch_posts b store \<noteq> [] \<Longrightarrow>
   delete_all_posts b store =
     (Fetched (length (fetch_posts b store)) # Deleted (length (fetch_posts b store))
        # fst (delete_all_posts b (delete_keys (fetch_posts b store) store)),
      snd (delete_all_posts b (delete_keys (fetch_posts b store) store)))"
  by (simp add: delete_all_posts.simps [of b store] case_prod_beta)

lemma delete_all_posts_none_left:
  "0 < b \<Longrightarrow> filter is_post (snd (delete_all_posts b store)) = []"
proof (induction b store rule: delete_all_posts.induct)
  case (1 batch_size store)
  show ?case
  proof (cases "fetch_posts batch_size store = []")
    case True
    then show ?thesis
      using "1.prems" by (simp add: delete_all_posts_stop fetch_posts_empty)
  next
    case False
    then show ?thesis
      using "1.IH" "1.prems" by (simp add: delete_all_posts_pass_eq)
  qed
qed

lemma delete_all_posts_others:
  "filter (\<lambda>k. \<not> is_post k) (snd (delete_all_posts b store)) = filter (\<lambda>k. \<not> is_post k) store"
proof (induction b store rule: delete_all_posts.induct)
  case (1 batch_size store)
  show ?case
  proof (cases "fetch_posts batch_size store = []")
    case True
    then show ?thesis
      by (simp add: delete_all_posts_stop)
  next
    case False
    then show ?thesis
      using "1.IH" delete_keys_others [of batch_size store]
      by (simp add: delete_all_posts_pass_eq)
  qed
qed

text \<open>The log ends with the empty fetch, and no fetch before it is empty.\<close>

lemma delete_all_posts_log:
  "fst (delete_all_posts b store) \<noteq> [] \<and>
   last (fst (delete_all_posts b store)) = Fetched 0 \<and>
   Fetched 0 \<notin> set (butlast (fst (delete_all_posts b store)))"
proof (induction b store rule: delete_all_posts.induct)
  case (1 batch_size store)
  show ?case
  proof (cases "fetch_posts batch_size store = []")
    case True
    then show ?thesis
      by (simp add: delete_all_posts_stop)
  next
    case False
    then show ?thesis
      using "1.IH" by (simp add: delete_all_posts_pass_eq)
  qed
qed

text \<open>With distinct keys, a pass removes exactly the batch it fetched.\<close>

lemma filter_not_in_take:
  assumes "distinct xs"
  shows "filter (\<lambda>x. x \<notin> set (take n xs)) xs = drop n xs"
proof -
  have "distinct (take n xs @ drop n xs)"
    using assms by simp
  then have disj: "set (take n xs) \<inter> set (drop n xs) = {}"
    by (simp only: distinct_append)
  have a: "filter (\<lambda>x. x \<notin> set (take n xs)) (take n xs) = []"
    by (simp add: filter_empty_conv)
  have b: "filter (\<lambda>x. x \<notin> set (take n xs)) (drop n xs) = drop n xs"
    using disj by (auto simp add: filter_id_conv)
  have "filter (\<lambda>x. x \<notin> set (take n xs)) xs =
      filter (\<lambda>x. x \<notin> set (take n xs)) (take n xs) @ filter (\<lambda>x. x \<notin> set (take n xs)) (drop n xs)"
    by (metis filter_append append_take_drop_id)
  then show ?thesis
    by (simp only: a b append_Nil)
qed

lemma delete_keys_posts:
  assumes "distinct store"
  shows "filter is_post (delete_keys (fetch_posts b store) store) = drop b (filter is_post store)"
proof -
  have "filter is_post (delete_keys (fetch_posts b store) store)
      = filter (\<lambda>x. x \<notin> set (take b (filter is_post store))) (filter is_post store)"
    by (simp add: delete_keys_def fetch_posts_def conj_commute)
  also have "\<dots> = drop b (filter is_post store)"
    by (rule filter_not_in_take) (simp add: assms)
  finally show ?thesis .
qed

lemma distinct_delete_keys: "distinct store \<Longrightarrow> distinct (delete_keys posts store)"
  by (simp add: delete_keys_def)

lemma delete_all_posts_pass:
  assumes "distinct store" and "length (filter is_post store) = n" and "0 < n" and "0 < b"
  shows "\<exists>store'. distinct store' \<and> length (filter is_post store') = n - min b n \<and>
           fst (delete_all_posts b store) =
             Fetched (min b n) # Deleted (min b n) # fst (delete_all_posts b store')"
proof -
  let ?store' = "delete_keys (fetch_posts b store) store"
  have len: "length (fetch_posts b store) = min b n"
    using assms(2) by (simp add: fetch_posts_def min.commute)
  have ne: "fetch_posts b store \<noteq> []"
    using len assms(3,4) by auto
  have "fst (delete_all_posts b store) =
      Fetched (min b n) # Deleted (min b n) # fst (delete_all_posts b ?store')"
    using ne len by (simp add: delete_all_posts_pass_eq)
  moreover have "length (filter is_post ?store') = n - min b n"
    using assms(1,2) by (simp add: delete_keys_posts min.commute)
  moreover have "distinct ?store'"
    using assms(1) by (rule distinct_delete_keys)
  ultimately show ?thesis by blast
qed

lemma delete_all_posts_done:
  assumes "length (filter is_post store) = 0"
  shows "fst (delete_all_posts b store) = [Fetched 0]"
  using assms by (simp add: delete_all_posts_stop fetch_posts_def)

lemma delete_all_posts_1200:
  assumes "distinct store" and "length (filter is_post store) = 1200"
  shows "fst (delete_all_posts 500 store) =
    [Fetched 500, Deleted 500, Fetched 500, Deleted 500, Fetched 200, Deleted 200, Fetched 0]"
proof -
  obtain s1 where s1: "distinct s1" "length (filter is_post s1) = 700"
    "fst (delete_all_posts 500 store) = Fetched 500 # Deleted 500 # fst (delete_all_posts 500 s1)"
    using delete_all_posts_pass [OF assms, of 500] by auto
  obtain s2 where s2: "distinct s2" "length (filter is_post s2) = 200"
    "fst (delete_all_posts 500 s1) = Fetched 500 # Deleted 500 # fst (delete_all_posts 500 s2)"
    using delete_all_posts_pass [OF s1(1,2), of 500] by auto
  obtain s3 where s3: "distinct s3" "length (filter is_post s3) = 0"
    "fst (delete_all_posts 500 s2) = Fetched 200 # Deleted 200 # fst (delete_all_posts 500 s3)"
    using delete_all_posts_pass [OF s2(1,2), of 500] by auto
  show ?thesis
    using s1(3) s2(3) s3(3) delete_all_posts_done [OF s3(2), of 500] by simp
qed

text \<open>
  C9. \<open>delete_all_posts\<close> with batch size 500 fetches a batch of Post keys and deletes
  it, pass after pass, and stops at the first fetch that returns nothing (the log ends
  with the empty fetch and holds no other). It returns for every datastore (the function
  is total, by the termination proof of its definition), with no Post entity left and the
  other entities as they were. For 1200 Post entities the passes delete 500, 500 and 200
  entities, and a fourth fetch finds none.
\<close>

theorem delete_all_posts_terminates_empty:
  "filter is_post (snd (delete_all_posts 500 store)) = [] \<and>
   filter (\<lambda>k. \<not> is_post k) (snd (delete_all_posts 500 store)) = filter (\<lambda>k. \<not> is_post k) store \<and>
   last (fst (delete_all_posts 500 store)) = Fetched 0 \<and>
   Fetched 0 \<notin> set (butlast (fst (delete_all_posts 500 store))) \<and>
   (distinct store \<and> length (filter is_post store) = 1200 \<longrightarrow>
      fst (delete_all_posts 500 store) =
        [Fetched 500, Deleted 500, Fetched 500, Deleted 500, Fetched 200, Deleted 200,
         Fetched 0])"
  using delete_all_posts_none_left [of 500 store] delete_all_posts_others [of 500 store]
    delete_all_posts_log [of 500 store] delete_all_posts_1200 [of store]
  by simp

lemma big_store_posts: "filter is_post big_store = map (\<lambda>n. (''Post'', n)) [0..<1200]"
  by (simp add: big_store_def is_post_def filter_map comp_def)

lemma big_store_distinct: "distinct big_store"
  by (auto simp add: big_store_def distinct_map inj_on_def)

theorem delete_all_posts_terminates_empty_witness:
  "distinct big_store \<and> length (filter is_post big_store) = 1200 \<and>
   fst (delete_all_posts 500 big_store) =
     [Fetched 500, Deleted 500, Fetched 500, Deleted 500, Fetched 200, Deleted 200, Fetched 0] \<and>
   filter is_post (snd (delete_all_posts 500 big_store)) = [] \<and>
   filter (\<lambda>k. \<not> is_post k) (snd (delete_all_posts 500 big_store)) = [(''User'', 0)]"
proof -
  have l: "length (filter is_post big_store) = 1200"
    by (simp add: big_store_posts)
  have o: "filter (\<lambda>k. \<not> is_post k) big_store = [(''User'', 0)]"
    by (simp add: big_store_def is_post_def filter_map comp_def)
  show ?thesis
    using delete_all_posts_terminates_empty [of big_store] big_store_distinct l o by simp
qed

section \<open>Properties of the exporter\<close>

subsection \<open>Integers written and read back\<close>

declare digits_of.simps [simp del]

lemma digit_val_digit_char: "d < 10 \<Longrightarrow> digit_val (digit_char d) = Some d"
proof -
  assume "d < 10"
  then have "d \<in> {0, 1, 2, 3, 4, 5, 6, 7, 8, 9}"
    by auto
  then show ?thesis
    by (auto simp add: digit_val_def digit_char_def)
qed

lemma digit_char_not_special:
  "d < 10 \<Longrightarrow> digit_char d \<noteq> CHR ''_'' \<and> digit_char d \<noteq> CHR ''-'' \<and> digit_char d \<noteq> CHR ''+'' \<and>
     \<not> is_space (digit_char d)"
proof -
  assume "d < 10"
  then have "d \<in> {0, 1, 2, 3, 4, 5, 6, 7, 8, 9}"
    by auto
  then show ?thesis
    by (auto simp add: digit_char_def is_space_def)
qed

text \<open>A text is a numeral when it is made of digits only.\<close>

lemma digits_of_digits: "ch \<in> set (digits_of n) \<Longrightarrow> \<exists>d<10. ch = digit_char d"
proof (induction n rule: digits_of.induct)
  case (1 n)
  show ?case
  proof (cases "n < 10")
    case True
    with "1.prems" show ?thesis
      by (auto simp add: digits_of.simps [of n])
  next
    case False
    from False "1.prems" have "ch \<in> set (digits_of (n div 10)) \<or> ch = digit_char (n mod 10)"
      by (auto simp add: digits_of.simps [of n])
    then show ?thesis
    proof
      assume "ch \<in> set (digits_of (n div 10))"
      with False "1.IH" show ?thesis by simp
    next
      assume "ch = digit_char (n mod 10)"
      moreover have "n mod 10 < 10" by simp
      ultimately show ?thesis by blast
    qed
  qed
qed

lemma digits_of_nonempty: "digits_of n \<noteq> []"
  by (simp add: digits_of.simps [of n])

lemma parse_digits_append:
  "\<forall>ch\<in>set cs. \<exists>d<10. ch = digit_char d \<Longrightarrow> d < 10 \<Longrightarrow> parse_digits acc cs = Some m \<Longrightarrow>
   parse_digits acc (cs @ [digit_char d]) = Some (m * 10 + d)"
proof (induction cs arbitrary: acc)
  case Nil
  then show ?case
    using digit_char_not_special [of d] by (simp add: digit_val_digit_char)
next
  case (Cons ch cs)
  then obtain e where e: "e < 10" "ch = digit_char e"
    by auto
  have "parse_digits (acc * 10 + e) cs = Some m"
    using Cons.prems(3) e digit_char_not_special [of e] by (simp add: digit_val_digit_char)
  then have "parse_digits (acc * 10 + e) (cs @ [digit_char d]) = Some (m * 10 + d)"
    using Cons.IH Cons.prems(1,2) by simp
  then show ?case
    using e digit_char_not_special [of e] by (simp add: digit_val_digit_char)
qed

lemma parse_nat_digits_of: "parse_nat (digits_of n) = Some n"
proof (induction n rule: digits_of.induct)
  case (1 n)
  show ?case
  proof (cases "n < 10")
    case True
    then show ?thesis
      by (simp add: digits_of.simps [of n] parse_nat_def digit_val_digit_char)
  next
    case False
    have m: "n mod 10 < 10" by simp
    obtain ch cs where c: "digits_of (n div 10) = ch # cs"
      using digits_of_nonempty [of "n div 10"] by (cases "digits_of (n div 10)") auto
    obtain e where e: "e < 10" "ch = digit_char e"
      using digits_of_digits [of ch "n div 10"] c by auto
    have all: "\<forall>x\<in>set cs. \<exists>d<10. x = digit_char d"
      using digits_of_digits [of _ "n div 10"] c by auto
    have "parse_nat (ch # cs) = Some (n div 10)"
      using "1.IH" False c by simp
    then have "parse_digits e cs = Some (n div 10)"
      using e by (simp add: parse_nat_def digit_val_digit_char)
    then have "parse_digits e (cs @ [digit_char (n mod 10)]) = Some (n div 10 * 10 + n mod 10)"
      using all m by (rule parse_digits_append [rotated 2])
    then have "parse_nat (ch # cs @ [digit_char (n mod 10)]) = Some n"
      using e by (simp add: parse_nat_def digit_val_digit_char)
    then show ?thesis
      using False c by (simp add: digits_of.simps [of n])
  qed
qed

lemma py_strip_digits:
  assumes "s \<noteq> []" and "\<not> is_space (hd s)" and "\<not> is_space (last s)"
  shows "py_strip s = s"
proof -
  have a: "dropWhile is_space s = s"
    using assms(1,2) by (cases s) auto
  have "rev s \<noteq> []" and "\<not> is_space (hd (rev s))"
    using assms(1,3) by (simp_all add: hd_rev)
  then have b: "dropWhile is_space (rev s) = rev s"
    by (cases "rev s") auto
  show ?thesis
    by (simp add: py_strip_def a b)
qed

lemma digits_of_ends:
  "\<exists>d<10. hd (digits_of n) = digit_char d" "\<exists>d<10. last (digits_of n) = digit_char d"
proof -
  have "hd (digits_of n) \<in> set (digits_of n)" and "last (digits_of n) \<in> set (digits_of n)"
    using digits_of_nonempty [of n] by simp_all
  then show "\<exists>d<10. hd (digits_of n) = digit_char d" "\<exists>d<10. last (digits_of n) = digit_char d"
    by (auto dest: digits_of_digits)
qed

lemma digits_of_no_space: "\<not> is_space (hd (digits_of n)) \<and> \<not> is_space (last (digits_of n))"
proof -
  obtain d e where "d < 10" "hd (digits_of n) = digit_char d" "e < 10" "last (digits_of n) = digit_char e"
    using digits_of_ends [of n] by auto
  then show ?thesis
    using digit_char_not_special [of d] digit_char_not_special [of e] by simp
qed

lemma hd_digits_of: "hd (digits_of n) \<noteq> CHR ''-'' \<and> hd (digits_of n) \<noteq> CHR ''+''"
proof -
  obtain d where "d < 10" "hd (digits_of n) = digit_char d"
    using digits_of_ends(1) [of n] by auto
  then show ?thesis
    using digit_char_not_special [of d] by simp
qed

text \<open>\<open>int(str(n)) = n\<close>.\<close>

lemma py_int_py_str: "py_int (py_str i) = Some i"
proof (cases "i < 0")
  case True
  have s: "py_strip (CHR ''-'' # digits_of (nat (- i))) = CHR ''-'' # digits_of (nat (- i))"
    using digits_of_no_space [of "nat (- i)"] digits_of_nonempty [of "nat (- i)"]
    by (intro py_strip_digits) (simp_all add: is_space_def)
  show ?thesis
    using True by (simp add: py_int_def py_str_def s parse_nat_digits_of)
next
  case False
  obtain ch cs where c: "digits_of (nat i) = ch # cs"
    using digits_of_nonempty [of "nat i"] by (cases "digits_of (nat i)") auto
  have s: "py_strip (digits_of (nat i)) = digits_of (nat i)"
    using digits_of_no_space [of "nat i"] digits_of_nonempty [of "nat i"]
    by (intro py_strip_digits) simp_all
  have s': "py_strip (ch # cs) = ch # cs"
    using s c by simp
  have h: "ch \<noteq> CHR ''-''" "ch \<noteq> CHR ''+''"
    using hd_digits_of [of "nat i"] c by simp_all
  have "parse_nat (ch # cs) = Some (nat i)"
    using parse_nat_digits_of [of "nat i"] c by simp
  then show ?thesis
    using False h by (simp add: py_int_def py_str_def c s')
qed

lemma py_str_inj: "py_str i = py_str j \<Longrightarrow> i = j"
  by (metis py_int_py_str option.inject)

lemma py_str_0: "py_str 0 = ''0''"
  by (simp add: py_str_def digits_of.simps [of 0] digit_char_def)

lemma py_str_1: "py_str 1 = ''1''"
  by (simp add: py_str_def digits_of.simps [of "Suc 0"] digit_char_def)

subsection \<open>What one export writes\<close>

lemma export_to_csv_written:
  assumes "results \<noteq> []" and "write_error os = None" and "well_ended fs"
  shows "export_to_csv rnd os results cu rpu limit fs =
     File (rows_of fs @ (if fs = Absent then [header] else [])
           @ [[py_str cu, py_str (avg_time_ms rnd (filter success results)) @ ''ms'',
               py_str (next_run os fs cu),
               py_str (failed_flag (filter (\<lambda>r. \<not> success r) results))]])"
  using assms by (cases fs) (simp_all add: export_to_csv_def Let_def)

text \<open>In every state of the file, the export hands the writer the same row.\<close>

lemma export_to_csv_writerow:
  assumes "results \<noteq> []" and "write_error os = None" and "fs \<noteq> Absent"
  shows "export_to_csv rnd os results cu rpu limit fs =
     writerow [py_str cu, py_str (avg_time_ms rnd (filter success results)) @ ''ms'',
               py_str (next_run os fs cu),
               py_str (failed_flag (filter (\<lambda>r. \<not> success r) results))] fs"
  using assms by (simp add: export_to_csv_def Let_def)

lemma export_to_csv_unchanged:
  "results = [] \<or> write_error os \<noteq> None \<Longrightarrow> export_to_csv rnd os results cu rpu limit fs = fs"
  by (auto simp add: export_to_csv_def Let_def split: option.splits)

lemma next_run_absent: "next_run os Absent param = 1"
  by (simp add: next_run_def)

lemma avg_field_not_header: "s @ ''ms'' \<noteq> ''AVG_TIME''"
proof
  assume "s @ ''ms'' = ''AVG_TIME''"
  then have "last (s @ ''ms'') = last ''AVG_TIME''"
    by (rule arg_cong)
  then show False by simp
qed




lemma py_str_3: "py_str 3 = ''3''"
  by (simp add: py_str_def digits_of.simps [of 3] digit_char_def)





text \<open>
  C6 (as amended). An export that writes (a non-empty result list, no error of the write)
  puts the header before its row exactly when the output file does not exist: on a fresh
  path the file becomes the header followed by one data row, and an existing file, with
  a header or without, gets the data row only. An export that does not write leaves the
  file as it was.
\<close>

theorem export_to_csv_header:
  "(results = [] \<or> write_error os \<noteq> None \<longrightarrow>
      export_to_csv rnd os results cu rpu limit fs = fs) \<and>
   (results \<noteq> [] \<and> write_error os = None \<longrightarrow>
      (\<exists>row. row \<noteq> header \<and> length row = 4 \<and> row ! 2 = ''1'' \<and>
         export_to_csv rnd os results cu rpu limit Absent = File [header, row]) \<and>
      (\<exists>row. row \<noteq> header \<and> length row = 4 \<and>
         export_to_csv rnd os results cu rpu limit (File rows) = File (rows @ [row])))"
proof -
  have u: "results = [] \<or> write_error os \<noteq> None \<longrightarrow>
      export_to_csv rnd os results cu rpu limit fs = fs"
    using export_to_csv_unchanged [of results os rnd cu rpu limit fs] by blast
  have w: "results \<noteq> [] \<and> write_error os = None \<longrightarrow>
      (\<exists>row. row \<noteq> header \<and> length row = 4 \<and> row ! 2 = ''1'' \<and>
         export_to_csv rnd os results cu rpu limit Absent = File [header, row]) \<and>
      (\<exists>row. row \<noteq> header \<and> length row = 4 \<and>
         export_to_csv rnd os results cu rpu limit (File rows) = File (rows @ [row]))"
  proof
    assume a: "results \<noteq> [] \<and> write_error os = None"
    let ?row = "\<lambda>fs. [py_str cu, py_str (avg_time_ms rnd (filter success results)) @ ''ms'',
               py_str (next_run os fs cu),
               py_str (failed_flag (filter (\<lambda>r. \<not> success r) results))]"
    have ne: "\<And>fs. ?row fs \<noteq> header"
      by (simp add: header_def avg_field_not_header)
    have f: "export_to_csv rnd os results cu rpu limit Absent = File [header, ?row Absent]"
      using a export_to_csv_written [of results os Absent rnd cu rpu limit] by simp
    have e: "export_to_csv rnd os results cu rpu limit (File rows) = File (rows @ [?row (File rows)])"
      using a export_to_csv_written [of results os "File rows" rnd cu rpu limit] by simp
    have one: "?row Absent ! 2 = ''1''"
      by (simp add: next_run_absent py_str_1)
    show "(\<exists>row. row \<noteq> header \<and> length row = 4 \<and> row ! 2 = ''1'' \<and>
         export_to_csv rnd os results cu rpu limit Absent = File [header, row]) \<and>
      (\<exists>row. row \<noteq> header \<and> length row = 4 \<and>
         export_to_csv rnd os results cu rpu limit (File rows) = File (rows @ [row]))"
    proof
      show "\<exists>row. row \<noteq> header \<and> length row = 4 \<and> row ! 2 = ''1'' \<and>
         export_to_csv rnd os results cu rpu limit Absent = File [header, row]"
        using ne [of Absent] f one by (intro exI [of _ "?row Absent"]) simp
      show "\<exists>row. row \<noteq> header \<and> length row = 4 \<and>
         export_to_csv rnd os results cu rpu limit (File rows) = File (rows @ [row])"
        using ne [of "File rows"] e by (intro exI [of _ "?row (File rows)"]) simp
    qed
  qed
  show ?thesis
    using u w by (rule conjI)
qed

lemma export_result_ok:
  assumes "well_ended fs"
  shows "export_to_csv (\<lambda>x. x) ok_io [result_ok] 3 1 20 fs =
     File (rows_of fs @ (if fs = Absent then [header] else [])
           @ [[''3'', ''3ms'', py_str (next_run ok_io fs 3), ''0'']])"
proof -
  have t: "py_trunc (7 / 2) = 3"
    by (simp add: py_trunc_def floor_eq_iff)
  show ?thesis
    using export_to_csv_written [of "[result_ok]" ok_io fs "\<lambda>x. x" 3 1 20] assms
    by (simp add: ok_io_def result_ok_def avg_time_ms_def mean_def failed_flag_def py_str_0
        py_str_3 t)
qed

theorem export_to_csv_header_witness:
  "[result_ok] \<noteq> [] \<and> write_error ok_io = None \<and>
   export_to_csv (\<lambda>x. x) ok_io [result_ok] 3 1 20 Absent =
     File [header, [''3'', ''3ms'', ''1'', ''0'']] \<and>
   export_to_csv (\<lambda>x. x) ok_io [] 3 1 20 Absent = Absent"
  using export_to_csv_header [of "[result_ok]" ok_io "\<lambda>x. x" 3 1 20 Absent "[]"]
    export_to_csv_header [of "[]" ok_io "\<lambda>x. x" 3 1 20 Absent "[]"]
    export_result_ok [of Absent]
  by (simp add: ok_io_def next_run_absent py_str_1)

theorem export_to_csv_headerless_counterexample:
  "export_to_csv (\<lambda>x. x) ok_io [result_ok] 3 1 20 (File []) = File [[''3'', ''3ms'', ''1'', ''0'']] \<and>
   header \<notin> set (rows_of (File [[''3'', ''3ms'', ''1'', ''0'']]))"
proof -
  have "next_run ok_io (File []) 3 = 1"
    by (simp add: next_run_def ok_io_def dict_reader_def)
  then show ?thesis
    using export_result_ok [of "File []"] by (simp add: py_str_1 header_def)
qed

subsection \<open>The scan of the run numbers\<close>

lemma row_raises_iff:
  "row_raises os p r =
     (r ''PARAM'' = None \<or>
      r ''PARAM'' = Some (Some p) \<and>
      (r ''RUN'' = None \<or> r ''RUN'' = Some None \<or>
       (\<exists>s. r ''RUN'' = Some (Some s) \<and> int_conv os s = None)))"
  by (auto simp add: row_raises_def split: option.splits)

lemma matching_rows_isl:
  "isl (matching_rows os p rs) = (\<exists>r\<in>set rs. row_raises os p r)"
proof (induction rs)
  case Nil
  show ?case by simp
next
  case (Cons r rs)
  show ?case
  proof (cases "row_raises os p r")
    case True
    then have "isl (matching_rows os p (r # rs))"
      by (simp add: row_raises_def split: option.splits)
    with True show ?thesis by simp
  next
    case False
    then obtain v where v: "r ''PARAM'' = Some v"
      by (cases "r ''PARAM''") (auto simp add: row_raises_def)
    have "isl (matching_rows os p (r # rs)) = isl (matching_rows os p rs)"
    proof (cases "v = Some p")
      case True
      then obtain s n where "r ''RUN'' = Some (Some s)" "int_conv os s = Some n"
        using False v by (auto simp add: row_raises_def split: option.splits)
      with v True show ?thesis
        by (cases "matching_rows os p rs") simp_all
    next
      case False
      with v show ?thesis by simp
    qed
    with False Cons.IH show ?thesis by simp
  qed
qed

lemma matching_rows_no_run:
  "matching_rows os p rs = Inr ns \<Longrightarrow> \<forall>r\<in>set rs. r ''RUN'' = None \<Longrightarrow> ns = []"
proof (induction rs arbitrary: ns)
  case Nil
  then show ?case by simp
next
  case (Cons r rs)
  have r: "r ''RUN'' = None"
    using Cons.prems(2) by simp
  have "matching_rows os p rs = Inr ns"
    using Cons.prems(1) r by (simp split: option.splits if_splits)
  then show ?case
    using Cons.IH Cons.prems(2) by simp
qed

text \<open>When nothing raises, the scan gives the integers of the \<open>RUN\<close> of the matching rows.\<close>

lemma matching_rows_values:
  "matching_rows os p rs = Inr ns \<Longrightarrow>
   map Some ns =
     map (\<lambda>r. case r ''RUN'' of Some (Some s) \<Rightarrow> int_conv os s | _ \<Rightarrow> None)
       (filter (\<lambda>r. r ''PARAM'' = Some (Some p)) rs)"
proof (induction rs arbitrary: ns)
  case Nil
  then show ?case by simp
next
  case (Cons r rs)
  obtain v where v: "r ''PARAM'' = Some v"
    using Cons.prems by (cases "r ''PARAM''") simp_all
  show ?case
  proof (cases "v = Some p")
    case True
    obtain s where s: "r ''RUN'' = Some (Some s)"
      using Cons.prems v True by (simp split: option.splits)
    obtain n where n: "int_conv os s = Some n"
      using Cons.prems v True s by (simp split: option.splits)
    obtain ms where ms: "matching_rows os p rs = Inr ms" "ns = n # ms"
      using Cons.prems v True s n by (auto split: sum.splits)
    show ?thesis
      using Cons.IH [OF ms(1)] v True s n ms(2) by simp
  next
    case False
    then have "matching_rows os p rs = Inr ns"
      using Cons.prems v by simp
    then show ?thesis
      using Cons.IH v False by simp
  qed
qed

lemma map_fst_zip_take: "map fst (zip xs ys) = take (length ys) xs"
proof (induction xs arbitrary: ys)
  case Nil
  show ?case by simp
next
  case (Cons a xs)
  then show ?case by (cases ys) simp_all
qed

lemma dict_row_keys: "(dict_row fieldnames row k = None) = (k \<notin> set fieldnames)"
proof -
  let ?pairs = "zip fieldnames (map Some row) @ map (\<lambda>k. (k, None)) (drop (length row) fieldnames)"
  have "map fst ?pairs = take (length row) fieldnames @ drop (length row) fieldnames"
    by (simp add: map_fst_zip_take comp_def)
  then have "fst ` set ?pairs = set fieldnames"
    by (metis append_take_drop_id set_map)
  moreover have "(map_of (rev ?pairs) k = None) = (k \<notin> fst ` set (rev ?pairs))"
    by (rule map_of_eq_None_iff)
  moreover have "set (rev ?pairs) = set ?pairs"
    by (rule set_rev)
  ultimately have "(map_of (rev ?pairs) k = None) = (k \<notin> set fieldnames)"
    by (simp only:)
  then show ?thesis
    by (simp only: dict_row_def)
qed

lemma dict_reader_keys:
  "r \<in> set (dict_reader (fieldnames # rest)) \<Longrightarrow> (r k = None) = (k \<notin> set fieldnames)"
  by (auto simp add: dict_reader_def dict_row_keys)

lemma next_run_read_error:
  "fs \<noteq> Absent \<Longrightarrow> read_error os \<noteq> None \<Longrightarrow> next_run os fs param = 1"
  by (auto simp add: next_run_def)

lemma next_run_raises:
  assumes "fs \<noteq> Absent"
    and "\<exists>r\<in>set (dict_reader (rows_of fs)). row_raises os (py_str param) r"
  shows "next_run os fs param = 1"
proof -
  have "isl (matching_rows os (py_str param) (dict_reader (rows_of fs)))"
    using assms(2) by (simp add: matching_rows_isl)
  then show ?thesis
    by (cases "matching_rows os (py_str param) (dict_reader (rows_of fs))")
       (auto simp add: next_run_def split: option.splits)
qed

lemma next_run_no_param_column:
  assumes "fs \<noteq> Absent" and "rows_of fs = fieldnames # rest" and "''PARAM'' \<notin> set fieldnames"
  shows "next_run os fs param = 1"
proof (cases "dict_reader (fieldnames # rest)")
  case Nil
  then show ?thesis
    using assms(2) by (simp add: next_run_def split: option.splits)
next
  case (Cons r rs)
  then have "r \<in> set (dict_reader (fieldnames # rest))"
    by simp
  then have "r ''PARAM'' = None"
    using assms(3) by (simp add: dict_reader_keys)
  then have "row_raises os (py_str param) r"
    by (simp add: row_raises_def)
  then have "\<exists>r\<in>set (dict_reader (rows_of fs)). row_raises os (py_str param) r"
    using Cons assms(2) by auto
  with assms(1) show ?thesis
    by (rule next_run_raises)
qed

lemma next_run_no_run_column:
  assumes "fs \<noteq> Absent" and "rows_of fs = fieldnames # rest" and "''RUN'' \<notin> set fieldnames"
  shows "next_run os fs param = 1"
proof (cases "matching_rows os (py_str param) (dict_reader (fieldnames # rest))")
  case (Inl e)
  then show ?thesis
    using assms(2) by (simp add: next_run_def split: option.splits)
next
  case (Inr ns)
  have "\<forall>r\<in>set (dict_reader (fieldnames # rest)). r ''RUN'' = None"
    using assms(3) by (simp add: dict_reader_keys)
  with Inr have "ns = []"
    by (rule matching_rows_no_run)
  with Inr show ?thesis
    using assms(2) by (simp add: next_run_def split: option.splits)
qed

lemma next_run_no_raise:
  assumes "fs \<noteq> Absent" and "read_error os = None"
    and "\<not> (\<exists>r\<in>set (dict_reader (rows_of fs)). row_raises os (py_str param) r)"
  shows "\<exists>ns. map Some ns =
       map (\<lambda>r. case r ''RUN'' of Some (Some s) \<Rightarrow> int_conv os s | _ \<Rightarrow> None)
         (filter (\<lambda>r. r ''PARAM'' = Some (Some (py_str param))) (dict_reader (rows_of fs))) \<and>
     next_run os fs param = (if ns \<noteq> [] then Max (set ns) + 1 else 1)"
proof -
  have "\<not> isl (matching_rows os (py_str param) (dict_reader (rows_of fs)))"
    using assms(3) by (simp add: matching_rows_isl)
  then obtain ns where ns: "matching_rows os (py_str param) (dict_reader (rows_of fs)) = Inr ns"
    by (cases "matching_rows os (py_str param) (dict_reader (rows_of fs))") auto
  have "next_run os fs param = (if ns \<noteq> [] then Max (set ns) + 1 else 1)"
    using assms(1,2) ns by (simp add: next_run_def)
  then show ?thesis
    using matching_rows_values [OF ns] by blast
qed

text \<open>\<open>int\<close> on ASCII text, on text over the limit of digits, and on other text.\<close>

lemma int_conv_ascii:
  assumes "\<forall>ch\<in>set s. is_ascii ch"
    and "\<not> over_limit os (length (filter (\<lambda>ch. digit_val ch \<noteq> None) s))"
  shows "int_conv os s = py_int s"
  using assms by (simp add: int_conv_def split: option.splits)

lemma int_conv_over_limit:
  assumes "\<forall>ch\<in>set s. is_ascii ch"
    and "over_limit os (length (filter (\<lambda>ch. digit_val ch \<noteq> None) s))"
  shows "int_conv os s = None"
  using assms by (simp add: int_conv_def split: option.splits)

lemma int_conv_unicode:
  "\<exists>ch\<in>set s. \<not> is_ascii ch \<Longrightarrow> int_conv os s = unicode_int os s"
  by (simp add: int_conv_def)

text \<open>
  C10 (as amended). When the output file exists and the scan of line 231 raises, the run
  number is 1 whatever the other rows hold, and the row handed to the writer carries 1.
  The scan raises when the file cannot be read, at a data row without the key \<open>PARAM\<close>,
  and at a row whose \<open>PARAM\<close> is the current parameter and whose \<open>RUN\<close> is missing or is
  a text that \<open>int\<close> refuses; so a file without the column \<open>PARAM\<close> or the column \<open>RUN\<close>
  gives 1. A row of another parameter is passed over before its \<open>RUN\<close> is read: when no
  row raises, the run number is one more than the greatest of the integers that \<open>int\<close>
  reads in the \<open>RUN\<close> of the matching rows, or 1 without any.
\<close>

theorem next_run_falls_back:
  assumes "fs \<noteq> Absent"
  shows "(read_error os \<noteq> None \<longrightarrow> next_run os fs param = 1) \<and>
   ((\<exists>r\<in>set (dict_reader (rows_of fs)). row_raises os (py_str param) r) \<longrightarrow>
      next_run os fs param = 1) \<and>
   (\<forall>r. row_raises os (py_str param) r =
      (r ''PARAM'' = None \<or>
       r ''PARAM'' = Some (Some (py_str param)) \<and>
       (r ''RUN'' = None \<or> r ''RUN'' = Some None \<or>
        (\<exists>s. r ''RUN'' = Some (Some s) \<and> int_conv os s = None)))) \<and>
   (\<forall>fieldnames rest.
      rows_of fs = fieldnames # rest \<and> (''PARAM'' \<notin> set fieldnames \<or> ''RUN'' \<notin> set fieldnames) \<longrightarrow>
      next_run os fs param = 1) \<and>
   (read_error os = None \<and>
    \<not> (\<exists>r\<in>set (dict_reader (rows_of fs)). row_raises os (py_str param) r) \<longrightarrow>
      (\<exists>ns. map Some ns =
           map (\<lambda>r. case r ''RUN'' of Some (Some s) \<Rightarrow> int_conv os s | _ \<Rightarrow> None)
             (filter (\<lambda>r. r ''PARAM'' = Some (Some (py_str param))) (dict_reader (rows_of fs))) \<and>
         next_run os fs param = (if ns \<noteq> [] then Max (set ns) + 1 else 1))) \<and>
   (results \<noteq> [] \<and> write_error os = None \<and>
    (read_error os \<noteq> None \<or>
     (\<exists>r\<in>set (dict_reader (rows_of fs)). row_raises os (py_str param) r)) \<longrightarrow>
      (\<exists>avg flag. export_to_csv rnd os results param rpu limit fs =
         writerow [py_str param, avg, ''1'', flag] fs))"
proof -
  have a: "read_error os \<noteq> None \<longrightarrow> next_run os fs param = 1"
    using assms next_run_read_error by blast
  have b: "(\<exists>r\<in>set (dict_reader (rows_of fs)). row_raises os (py_str param) r) \<longrightarrow>
      next_run os fs param = 1"
    using assms next_run_raises by blast
  have c: "\<forall>fieldnames rest.
      rows_of fs = fieldnames # rest \<and> (''PARAM'' \<notin> set fieldnames \<or> ''RUN'' \<notin> set fieldnames) \<longrightarrow>
      next_run os fs param = 1"
    using assms next_run_no_param_column next_run_no_run_column by blast
  have d: "read_error os = None \<and>
    \<not> (\<exists>r\<in>set (dict_reader (rows_of fs)). row_raises os (py_str param) r) \<longrightarrow>
      (\<exists>ns. map Some ns =
           map (\<lambda>r. case r ''RUN'' of Some (Some s) \<Rightarrow> int_conv os s | _ \<Rightarrow> None)
             (filter (\<lambda>r. r ''PARAM'' = Some (Some (py_str param))) (dict_reader (rows_of fs))) \<and>
         next_run os fs param = (if ns \<noteq> [] then Max (set ns) + 1 else 1))"
    using assms next_run_no_raise [of fs os param] by blast
  have e: "results \<noteq> [] \<and> write_error os = None \<and>
    (read_error os \<noteq> None \<or>
     (\<exists>r\<in>set (dict_reader (rows_of fs)). row_raises os (py_str param) r)) \<longrightarrow>
      (\<exists>avg flag. export_to_csv rnd os results param rpu limit fs =
         writerow [py_str param, avg, ''1'', flag] fs)"
  proof
    assume h: "results \<noteq> [] \<and> write_error os = None \<and>
      (read_error os \<noteq> None \<or>
       (\<exists>r\<in>set (dict_reader (rows_of fs)). row_raises os (py_str param) r))"
    then have "next_run os fs param = 1"
      using a b by blast
    then have "export_to_csv rnd os results param rpu limit fs =
        writerow [py_str param, py_str (avg_time_ms rnd (filter success results)) @ ''ms'', ''1'',
                  py_str (failed_flag (filter (\<lambda>r. \<not> success r) results))] fs"
      using h assms export_to_csv_writerow [of results os fs rnd param rpu limit]
      by (simp add: py_str_1)
    then show "\<exists>avg flag. export_to_csv rnd os results param rpu limit fs =
         writerow [py_str param, avg, ''1'', flag] fs"
      by blast
  qed
  show ?thesis
    using a b c d e row_raises_iff [of os "py_str param"] by blast
qed

lemma py_int_abc: "py_int ''abc'' = None"
  by (simp add: py_int_def py_strip_def is_space_def parse_nat_def digit_val_def)

lemma py_int_2: "py_int ''2'' = Some 2"
  by (simp add: py_int_def py_strip_def is_space_def parse_nat_def digit_val_def)

lemma int_conv_abc: "int_conv os ''abc'' = None"
  by (simp add: int_conv_def is_ascii_def py_int_abc)

lemma int_conv_2: "int_conv os ''2'' = Some 2"
  by (simp add: int_conv_def is_ascii_def py_int_2 over_limit_def digit_val_def)

lemma int_conv_control: "int_conv os [CHR 0x1C, CHR ''7''] = None"
  by (simp add: int_conv_def is_ascii_def py_int_def py_strip_def is_space_def parse_nat_def
      digit_val_def)

lemma int_conv_spaces: "int_conv os '' +1_0 '' = Some 10"
  by (simp add: int_conv_def is_ascii_def py_int_def py_strip_def is_space_def parse_nat_def
      digit_val_def over_limit_def)

lemma int_conv_arabic: "int_conv usual_io [CHR 0xD9, CHR 0xA3] = Some 3"
  by (simp add: int_conv_def is_ascii_def usual_io_def)

lemma ones_digits:
  "length (filter (\<lambda>ch. digit_val ch \<noteq> None) (replicate n (CHR ''1''))) = n"
  by (induction n) (simp_all add: digit_val_def)

lemma ones_ascii: "\<forall>ch\<in>set (replicate n (CHR ''1'')). is_ascii ch"
  by (simp add: is_ascii_def)

lemma int_conv_long: "int_conv usual_io long_run = None"
proof -
  have "over_limit usual_io 4301"
    by (simp add: over_limit_def usual_io_def)
  then have "over_limit usual_io
      (length (filter (\<lambda>ch. digit_val ch \<noteq> None) (replicate 4301 (CHR ''1''))))"
    by (simp only: ones_digits)
  with ones_ascii show ?thesis
    unfolding long_run_def by (rule int_conv_over_limit)
qed

lemma header_row:
  "dict_row header [a, b, c, d] ''PARAM'' = Some (Some a)"
  "dict_row header [a, b, c, d] ''RUN'' = Some (Some c)"
  by (simp_all add: dict_row_def header_def)

lemma spoiled_reader:
  "dict_reader (rows_of spoiled_file) =
     [dict_row header [''3'', ''1ms'', ''abc'', ''0''], dict_row header [''3'', ''1ms'', ''2'', ''0'']]"
  by (simp add: spoiled_file_def dict_reader_def)

lemma spoiled_row_raises: "row_raises os ''3'' (dict_row header [''3'', ''1ms'', ''abc'', ''0''])"
  by (simp add: row_raises_def header_row int_conv_abc)

lemma next_run_long: "next_run usual_io long_file 3 = 1"
proof -
  have "dict_reader (rows_of long_file) =
      [dict_row header [''3'', ''1ms'', long_run, ''0''], dict_row header [''3'', ''1ms'', ''2'', ''0'']]"
    by (simp add: long_file_def dict_reader_def)
  moreover have "row_raises usual_io ''3'' (dict_row header [''3'', ''1ms'', long_run, ''0''])"
    by (simp add: row_raises_def header_row int_conv_long)
  ultimately have "\<exists>r\<in>set (dict_reader (rows_of long_file)). row_raises usual_io (py_str 3) r"
    by (simp add: py_str_3)
  moreover have "long_file \<noteq> Absent"
    by (simp add: long_file_def)
  ultimately show ?thesis
    by (intro next_run_raises)
qed

lemma next_run_control: "next_run usual_io control_file 3 = 1"
proof -
  have "dict_reader (rows_of control_file) =
      [dict_row header [''3'', ''1ms'', [CHR 0x1C, CHR ''7''], ''0'']]"
    by (simp add: control_file_def dict_reader_def)
  moreover have "row_raises usual_io ''3'' (dict_row header [''3'', ''1ms'', [CHR 0x1C, CHR ''7''], ''0''])"
    by (simp add: row_raises_def header_row int_conv_control)
  ultimately have "\<exists>r\<in>set (dict_reader (rows_of control_file)). row_raises usual_io (py_str 3) r"
    by (simp add: py_str_3)
  moreover have "control_file \<noteq> Absent"
    by (simp add: control_file_def)
  ultimately show ?thesis
    by (intro next_run_raises)
qed

lemma next_run_arabic: "next_run usual_io arabic_file 3 = 4"
proof -
  have d: "dict_reader (rows_of arabic_file) =
      [dict_row header [''3'', ''1ms'', [CHR 0xD9, CHR 0xA3], ''0'']]"
    by (simp add: arabic_file_def dict_reader_def)
  have m: "matching_rows usual_io ''3'' (dict_reader (rows_of arabic_file)) = Inr [3]"
    by (simp add: d header_row int_conv_arabic)
  have ne: "arabic_file \<noteq> Absent"
    by (simp add: arabic_file_def)
  have rd: "read_error usual_io = None"
    by (simp add: usual_io_def)
  show ?thesis
    using m ne rd by (simp add: next_run_def py_str_3)
qed

theorem next_run_falls_back_witness:
  "spoiled_file \<noteq> Absent \<and>
   row_raises ok_io (py_str 3) (dict_row header [''3'', ''1ms'', ''abc'', ''0'']) \<and>
   dict_row header [''3'', ''1ms'', ''abc'', ''0''] \<in> set (dict_reader (rows_of spoiled_file)) \<and>
   dict_row header [''3'', ''1ms'', ''2'', ''0''] ''RUN'' = Some (Some ''2'') \<and>
   next_run ok_io spoiled_file 3 = 1 \<and>
   int_conv usual_io [CHR 0x1C, CHR ''7''] = None \<and> next_run usual_io control_file 3 = 1 \<and>
   int_conv usual_io long_run = None \<and> next_run usual_io long_file 3 = 1 \<and>
   int_conv usual_io [CHR 0xD9, CHR 0xA3] = Some 3 \<and> next_run usual_io arabic_file 3 = 4 \<and>
   int_conv usual_io '' +1_0 '' = Some 10"
proof -
  have r: "\<exists>r\<in>set (dict_reader (rows_of spoiled_file)). row_raises ok_io (py_str 3) r"
    using spoiled_row_raises [of ok_io] by (simp add: spoiled_reader py_str_3)
  have f: "spoiled_file \<noteq> Absent"
    by (simp add: spoiled_file_def)
  have "next_run ok_io spoiled_file 3 = 1"
    using next_run_falls_back [OF f, of ok_io 3] r by blast
  then show ?thesis
    using spoiled_row_raises [of ok_io] f int_conv_control int_conv_long next_run_long
      next_run_control int_conv_arabic next_run_arabic int_conv_spaces
    by (simp add: spoiled_reader py_str_3 header_row)
qed

theorem next_run_other_param_counterexample:
  "[''5'', ''1ms'', ''abc'', ''0''] \<in> set (rows_of mixed_file) \<and> int_conv ok_io ''abc'' = None \<and>
   next_run ok_io mixed_file 3 = 3 \<and>
   export_to_csv (\<lambda>x. x) ok_io [result_ok] 3 1 20 mixed_file =
     File [header, [''5'', ''1ms'', ''abc'', ''0''], [''3'', ''1ms'', ''2'', ''0''],
           [''3'', ''3ms'', ''3'', ''0'']]"
proof -
  have d: "dict_reader (rows_of mixed_file) =
     [dict_row header [''5'', ''1ms'', ''abc'', ''0''], dict_row header [''3'', ''1ms'', ''2'', ''0'']]"
    by (simp add: mixed_file_def dict_reader_def)
  have m: "matching_rows ok_io ''3'' (dict_reader (rows_of mixed_file)) = Inr [2]"
    by (simp add: d header_row int_conv_2)
  have ne: "mixed_file \<noteq> Absent"
    by (simp add: mixed_file_def)
  have rd: "read_error ok_io = None"
    by (simp add: ok_io_def)
  have n: "next_run ok_io mixed_file 3 = 3"
    using m ne rd by (simp add: next_run_def py_str_3)
  have c: "well_ended mixed_file"
    by (simp add: mixed_file_def)
  show ?thesis
    using n export_result_ok [OF c]
    by (simp add: int_conv_abc py_str_3) (simp add: mixed_file_def)
qed

subsection \<open>Successive exports\<close>

text \<open>A data row written by the exporter: the parameter, a time, a run number, a flag.\<close>

lemma py_str_ascii: "\<forall>ch\<in>set (py_str n). is_ascii ch"
proof
  fix ch
  assume "ch \<in> set (py_str n)"
  then have "ch = CHR ''-'' \<or> (\<exists>m. ch \<in> set (digits_of m))"
    by (auto simp add: py_str_def split: if_splits)
  then show "is_ascii ch"
  proof
    assume "ch = CHR ''-''"
    then show ?thesis by (simp add: is_ascii_def)
  next
    assume "\<exists>m. ch \<in> set (digits_of m)"
    then obtain d where "d < 10" "ch = digit_char d"
      using digits_of_digits by blast
    then have "d \<in> {0, 1, 2, 3, 4, 5, 6, 7, 8, 9}" "ch = digit_char d"
      by auto
    then show ?thesis
      by (auto simp add: digit_char_def is_ascii_def)
  qed
qed

text \<open>Without a limit of digits, \<open>int(str(n)) = n\<close>.\<close>

lemma int_conv_py_str: "int_conv ok_io (py_str n) = Some n"
proof -
  have "\<not> over_limit ok_io (length (filter (\<lambda>ch. digit_val ch \<noteq> None) (py_str n)))"
    by (simp add: over_limit_def ok_io_def)
  then have "int_conv ok_io (py_str n) = py_int (py_str n)"
    using py_str_ascii by (intro int_conv_ascii) auto
  then show ?thesis
    by (simp add: py_int_py_str)
qed

lemma matching_rows_written:
  assumes "\<forall>row\<in>set data. \<exists>q a n f. row = [py_str q, a, py_str n, f]"
  shows "\<exists>ns. matching_rows ok_io (py_str p) (map (dict_row header) data) = Inr ns \<and>
     map py_str ns = map (\<lambda>r. r ! 2) (filter (\<lambda>r. r ! 0 = py_str p) data)"
  using assms
proof (induction data)
  case Nil
  show ?case by simp
next
  case (Cons row data)
  obtain q a n f where row: "row = [py_str q, a, py_str n, f]"
    using Cons.prems by auto
  obtain ns where ns: "matching_rows ok_io (py_str p) (map (dict_row header) data) = Inr ns"
    "map py_str ns = map (\<lambda>r. r ! 2) (filter (\<lambda>r. r ! 0 = py_str p) data)"
    using Cons.IH Cons.prems by auto
  show ?case
  proof (cases "py_str q = py_str p")
    case True
    have "matching_rows ok_io (py_str p) (map (dict_row header) (row # data)) = Inr (n # ns)"
      using True ns(1) by (simp add: row header_row int_conv_py_str)
    moreover have "map py_str (n # ns) = map (\<lambda>r. r ! 2) (filter (\<lambda>r. r ! 0 = py_str p) (row # data))"
      using True ns(2) by (simp add: row)
    ultimately show ?thesis by blast
  next
    case False
    have "matching_rows ok_io (py_str p) (map (dict_row header) (row # data)) = Inr ns"
      using False ns(1) by (simp add: row header_row)
    moreover have "map py_str ns = map (\<lambda>r. r ! 2) (filter (\<lambda>r. r ! 0 = py_str p) (row # data))"
      using False ns(2) by (simp add: row)
    ultimately show ?thesis by blast
  qed
qed

lemma inj_py_str: "inj py_str"
  by (rule injI) (rule py_str_inj)

lemma Max_upto: "0 < k \<Longrightarrow> Max (set [1..int k]) = int k"
  by (intro Max_eqI) auto

lemma next_run_written:
  assumes "\<forall>row\<in>set data. \<exists>q a n f. row = [py_str q, a, py_str n, f]"
    and "map (\<lambda>r. r ! 2) (filter (\<lambda>r. r ! 0 = py_str p) data) = map py_str [1..int k]"
  shows "next_run ok_io (File (header # data)) p = int k + 1"
proof -
  obtain ns where ns: "matching_rows ok_io (py_str p) (map (dict_row header) data) = Inr ns"
    "map py_str ns = map (\<lambda>r. r ! 2) (filter (\<lambda>r. r ! 0 = py_str p) data)"
    using matching_rows_written [OF assms(1), of p] by auto
  have "map py_str ns = map py_str [1..int k]"
    using ns(2) assms(2) by simp
  then have eq: "ns = [1..int k]"
    using inj_py_str by (simp add: inj_map_eq_map)
  have nonempty: "filter (\<lambda>r. r \<noteq> []) data = data"
    using assms(1) by (auto simp add: filter_id_conv)
  have r: "dict_reader (header # data) = map (dict_row header) data"
    by (simp add: dict_reader_def nonempty)
  show ?thesis
  proof (cases "k = 0")
    case True
    then show ?thesis
      using ns(1) eq by (simp add: next_run_def ok_io_def r)
  next
    case False
    then have "Max (set [1..int k]) = int k"
      by (intro Max_upto) simp
    moreover have "[1..int k] \<noteq> []"
      using False by simp
    ultimately show ?thesis
      using ns(1) eq by (simp add: next_run_def ok_io_def r)
  qed
qed

lemma upto_snoc: "[1..int k] @ [int k + 1] = [1..int (Suc k)]"
proof -
  have "[1..int (Suc k)] = [1..int (Suc k) - 1] @ [int (Suc k)]"
    by (rule upto_rec2) simp
  then show ?thesis
    by (simp add: add.commute)
qed

text \<open>One export keeps the shape of the file and adds the next run number of its parameter.\<close>

lemma export_step:
  assumes "results \<noteq> []"
    and "fs = Absent \<or> (\<exists>data. fs = File (header # data))"
    and "\<forall>row\<in>set (data_rows fs). \<exists>q a n f. row = [py_str q, a, py_str n, f]"
    and "\<forall>q. runs_of q fs = map py_str [1..int (cnt q)]"
  shows "(\<exists>data. export_to_csv rnd ok_io results u rq l fs = File (header # data)) \<and>
     (\<forall>row\<in>set (data_rows (export_to_csv rnd ok_io results u rq l fs)).
        \<exists>q a n f. row = [py_str q, a, py_str n, f]) \<and>
     (\<forall>q. runs_of q (export_to_csv rnd ok_io results u rq l fs) =
        map py_str [1..int ((cnt(u := Suc (cnt u))) q)])"
proof -
  let ?row = "[py_str u, py_str (avg_time_ms rnd (filter success results)) @ ''ms'',
               py_str (int (cnt u) + 1),
               py_str (failed_flag (filter (\<lambda>r. \<not> success r) results))]"
  have w: "write_error ok_io = None"
    by (simp add: ok_io_def)
  have n: "next_run ok_io fs u = int (cnt u) + 1"
  proof (cases "fs = Absent")
    case True
    have "runs_of u fs = map py_str [1..int (cnt u)]"
      using assms(4) by simp
    then have "[1..int (cnt u)] = []"
      using True by (simp add: runs_of_def data_rows_def)
    then have "cnt u = 0"
      by (cases "cnt u") (simp_all add: upto.simps)
    with True show ?thesis
      by (simp add: next_run_absent)
  next
    case False
    then obtain data where d: "fs = File (header # data)"
      using assms(2) by auto
    have "\<forall>row\<in>set data. \<exists>q a n f. row = [py_str q, a, py_str n, f]"
      using assms(3) d by (simp add: data_rows_def)
    moreover have "map (\<lambda>r. r ! 2) (filter (\<lambda>r. r ! 0 = py_str u) data) = map py_str [1..int (cnt u)]"
      using assms(4) d by (simp add: runs_of_def data_rows_def)
    ultimately show ?thesis
      unfolding d by (rule next_run_written)
  qed
  have c: "well_ended fs"
    using assms(2) by auto
  have e: "export_to_csv rnd ok_io results u rq l fs = File (header # data_rows fs @ [?row])"
  proof (cases "fs = Absent")
    case True
    then show ?thesis
      using export_to_csv_written [OF assms(1) w c, of rnd u rq l] n
      by (simp add: data_rows_def)
  next
    case False
    then obtain data where d: "fs = File (header # data)"
      using assms(2) by auto
    then show ?thesis
      using export_to_csv_written [OF assms(1) w c, of rnd u rq l] n
      by (simp add: data_rows_def)
  qed
  have rows: "data_rows (export_to_csv rnd ok_io results u rq l fs) = data_rows fs @ [?row]"
    by (simp add: e data_rows_def)
  have shape: "\<forall>row\<in>set (data_rows fs @ [?row]). \<exists>q a n f. row = [py_str q, a, py_str n, f]"
    using assms(3) by auto
  have runs: "\<forall>q. runs_of q (export_to_csv rnd ok_io results u rq l fs) =
      map py_str [1..int ((cnt(u := Suc (cnt u))) q)]"
  proof
    fix q
    show "runs_of q (export_to_csv rnd ok_io results u rq l fs) =
        map py_str [1..int ((cnt(u := Suc (cnt u))) q)]"
    proof (cases "q = u")
      case True
      have "runs_of u (export_to_csv rnd ok_io results u rq l fs) =
          runs_of u fs @ [py_str (int (cnt u) + 1)]"
        by (simp add: runs_of_def rows)
      also have "\<dots> = map py_str ([1..int (cnt u)] @ [int (cnt u) + 1])"
        using assms(4) by simp
      also have "\<dots> = map py_str [1..int (Suc (cnt u))]"
        by (simp only: upto_snoc)
      finally show ?thesis
        using True by simp
    next
      case False
      then have "py_str u \<noteq> py_str q"
        using py_str_inj by blast
      then have "runs_of q (export_to_csv rnd ok_io results u rq l fs) = runs_of q fs"
        by (simp add: runs_of_def rows)
      then show ?thesis
        using False assms(4) by simp
    qed
  qed
  show ?thesis
    using e rows shape runs by simp
qed

lemma run_exports_runs:
  assumes "\<forall>x\<in>set calls. call_results x \<noteq> []"
    and "fs = Absent \<or> (\<exists>data. fs = File (header # data))"
    and "\<forall>row\<in>set (data_rows fs). \<exists>q a n f. row = [py_str q, a, py_str n, f]"
    and "\<forall>q. runs_of q fs = map py_str [1..int (cnt q)]"
  shows "runs_of p (run_exports rnd calls fs) =
     map py_str [1..int (cnt p + length (filter (\<lambda>x. call_users x = p) calls))]"
  using assms
proof (induction calls arbitrary: fs cnt)
  case Nil
  then show ?case by simp
next
  case (Cons x xs)
  let ?fs = "export_to_csv rnd ok_io (call_results x) (call_users x) (call_requests x) (call_limit x) fs"
  let ?cnt = "cnt(call_users x := Suc (cnt (call_users x)))"
  have r: "call_results x \<noteq> []"
    using Cons.prems(1) by simp
  have step: "(\<exists>data. ?fs = File (header # data)) \<and>
     (\<forall>row\<in>set (data_rows ?fs). \<exists>q a n f. row = [py_str q, a, py_str n, f]) \<and>
     (\<forall>q. runs_of q ?fs = map py_str [1..int (?cnt q)])"
    using r Cons.prems(2,3,4) by (rule export_step)
  have "runs_of p (run_exports rnd xs ?fs) =
      map py_str [1..int (?cnt p + length (filter (\<lambda>x. call_users x = p) xs))]"
    using Cons.prems(1) step by (intro Cons.IH) auto
  then show ?case
    by (cases "call_users x = p") simp_all
qed

text \<open>
  C5. Starting from an absent output file, successive exports (each of a non-empty result
  list, reading and writing without error) leave, for every parameter \<open>p\<close>, the \<open>RUN\<close>
  fields of the rows of \<open>p\<close> equal to \<open>1, 2, \<dots>, N\<close> in order, \<open>N\<close> being the number of
  the exports made with \<open>p\<close>, whatever exports of other parameters come in between. Each
  run number is one more than the greatest \<open>RUN\<close> of the rows of the parameter so far, and
  a number written is read back as itself.
\<close>

theorem run_exports_run_indices:
  assumes "\<forall>x\<in>set calls. call_results x \<noteq> []"
  shows "runs_of p (run_exports rnd calls Absent) =
           map py_str [1..int (length (filter (\<lambda>x. call_users x = p) calls))] \<and>
         (\<forall>n. py_int (py_str n) = Some n)"
proof -
  have "runs_of p (run_exports rnd calls Absent) =
      map py_str [1..int ((\<lambda>q. 0) p + length (filter (\<lambda>x. call_users x = p) calls))]"
    using assms by (rule run_exports_runs) (simp_all add: data_rows_def runs_of_def)
  then show ?thesis
    by (simp add: py_int_py_str)
qed

lemma py_str_2: "py_str 2 = ''2''"
  by (simp add: py_str_def digits_of.simps [of 2] digit_char_def)

theorem run_exports_run_indices_witness:
  "[] \<notin> set (map call_results interleaved_calls) \<and>
   runs_of 3 (run_exports (\<lambda>x. x) interleaved_calls Absent) = [''1'', ''2''] \<and>
   runs_of 5 (run_exports (\<lambda>x. x) interleaved_calls Absent) = [''1'']"
proof -
  have h: "\<forall>x\<in>set interleaved_calls. call_results x \<noteq> []"
    by (simp add: interleaved_calls_def)
  have u: "[1..2] = [1, 2::int]" "[1..1] = [1::int]"
    by (simp_all add: upto.simps)
  have a: "int (length (filter (\<lambda>x. call_users x = 3) interleaved_calls)) = 2"
    by (simp add: interleaved_calls_def)
  have b: "int (length (filter (\<lambda>x. call_users x = 5) interleaved_calls)) = 1"
    by (simp add: interleaved_calls_def)
  have c: "[] \<notin> set (map call_results interleaved_calls)"
    by (simp add: interleaved_calls_def)
  show ?thesis
    using run_exports_run_indices [OF h, of 3 "\<lambda>x. x"] run_exports_run_indices [OF h, of 5 "\<lambda>x. x"] c
    by (simp only: a b u) (simp add: py_str_1 py_str_2)
qed

section \<open>Properties of the load driver\<close>













text \<open>A line written into an open quoted field stays inside that field.\<close>

lemma export_into_quotes:
  "export_to_csv (\<lambda>x. x) ok_io [result_failed] 1 1 20 (Unfinished [header, [''3'', ''x'']] True) =
     Unfinished [header, [''3'', ''x1,0ms,1,1'' @ [CHR 0x0A]]] True"
  by code_simp



end
